theory Spec2Isabelle
  imports Complex_Main "HOL-Library.Log_Nat"
begin

section \<open>C++ arithmetic used by the detector preprocessor\<close>

text \<open>
  The preprocessor of \<^verbatim>\<open>fastdeploy/vision/ocr/ppocr/det_preprocessor.cc\<close> computes
  target sizes with \<^verbatim>\<open>int\<close> and \<^verbatim>\<open>float\<close> arithmetic. An \<^verbatim>\<open>int\<close> is a
  mathematical integer between \<open>INT_MIN\<close> and \<open>INT_MAX\<close>; an operation whose result
  leaves that range, a division by zero, a conversion of a float that has no \<^verbatim>\<open>int\<close>
  value and an index past the end of a vector are undefined behaviour in C++, and are
  a \<open>fault\<close> of the model, as is the loud failure of an external primitive that is
  given an invalid shape: every function that can reach one returns \<open>fault + result\<close>.
\<close>

datatype fault = SignedOverflow | DivisionByZero | FloatToIntRange | IndexOutOfRange
  | InvalidShape

definition INT_MAX :: int where
  "INT_MAX = 2147483647"

definition INT_MIN :: int where
  "INT_MIN = - 2147483648"

definition chk_int :: "int \<Rightarrow> fault + int" where
  "chk_int x = (if INT_MIN \<le> x \<and> x \<le> INT_MAX then Inr x else Inl SignedOverflow)"

definition and_then :: "fault + 'a \<Rightarrow> ('a \<Rightarrow> fault + 'b) \<Rightarrow> fault + 'b" where
  "and_then m f = (case m of Inl e \<Rightarrow> Inl e | Inr x \<Rightarrow> f x)"

text \<open>Integer division of C++ truncates towards zero.\<close>

definition c_div :: "int \<Rightarrow> int \<Rightarrow> fault + int" where
  "c_div a b =
     (if b = 0 then Inl DivisionByZero
      else chk_int (sgn a * sgn b * (\<bar>a\<bar> div \<bar>b\<bar>)))"

subsection \<open>IEEE-754 binary32\<close>

text \<open>
  A \<^verbatim>\<open>float\<close> is an IEEE-754 binary32 value: a finite rational with a 24-bit
  significand and an exponent between \<open>-126\<close> and \<open>127\<close> (subnormals below), an
  infinity, or a NaN. Every operation rounds the exact result to the nearest
  representable value, ties to the even significand. The sign of a zero is not kept:
  the only divisors of the program are converted integers, whose zero is \<open>+0\<close>, and no
  other operation of the program tells \<open>-0\<close> from \<open>+0\<close>.
\<close>

datatype float32 = Finite rat | PosInf | NegInf | NaN

text \<open>\<open>expo x\<close> is \<open>\<lfloor>log\<^sub>2 x\<rfloor>\<close> for a positive rational \<open>x\<close>.\<close>

definition expo :: "rat \<Rightarrow> int" where
  "expo x =
     (if 1 \<le> x then int (floorlog 2 (nat \<lfloor>x\<rfloor>)) - 1
      else - int (floorlog 2 (nat (\<lceil>1 / x\<rceil> - 1))))"

definition round_even :: "rat \<Rightarrow> int" where
  "round_even r =
     (let f = \<lfloor>r\<rfloor>; d = r - of_int f
      in if d < 1 / 2 then f
         else if 1 / 2 < d then f + 1
         else if even f then f else f + 1)"

text \<open>The spacing of the binary32 values around a non-zero \<open>x\<close>.\<close>

definition quantum :: "rat \<Rightarrow> rat" where
  "quantum x = power_int 2 (max (expo \<bar>x\<bar>) (- 126) - 23)"

definition rnd :: "rat \<Rightarrow> rat" where
  "rnd x = (if x = 0 then 0 else of_int (round_even (x / quantum x)) * quantum x)"

definition round_f32 :: "rat \<Rightarrow> float32" where
  "round_f32 x =
     (let y = rnd x
      in if 2 ^ 128 \<le> y then PosInf
         else if y \<le> - (2 ^ 128) then NegInf
         else Finite y)"

text \<open>The conversion \<^verbatim>\<open>(float)n\<close> of an \<^verbatim>\<open>int\<close>.\<close>

definition int_to_float :: "int \<Rightarrow> float32" where
  "int_to_float n = round_f32 (of_int n)"

fun fdiv :: "float32 \<Rightarrow> float32 \<Rightarrow> float32" where
  "fdiv NaN _ = NaN"
| "fdiv _ NaN = NaN"
| "fdiv (Finite a) (Finite b) =
     (if b = 0 then (if a = 0 then NaN else if 0 < a then PosInf else NegInf)
      else round_f32 (a / b))"
| "fdiv (Finite a) _ = Finite 0"
| "fdiv PosInf (Finite b) = (if 0 \<le> b then PosInf else NegInf)"
| "fdiv NegInf (Finite b) = (if 0 \<le> b then NegInf else PosInf)"
| "fdiv _ _ = NaN"

fun fmul :: "float32 \<Rightarrow> float32 \<Rightarrow> float32" where
  "fmul NaN _ = NaN"
| "fmul _ NaN = NaN"
| "fmul (Finite a) (Finite b) = round_f32 (a * b)"
| "fmul (Finite a) PosInf = (if a = 0 then NaN else if 0 < a then PosInf else NegInf)"
| "fmul (Finite a) NegInf = (if a = 0 then NaN else if 0 < a then NegInf else PosInf)"
| "fmul PosInf (Finite b) = (if b = 0 then NaN else if 0 < b then PosInf else NegInf)"
| "fmul NegInf (Finite b) = (if b = 0 then NaN else if 0 < b then NegInf else PosInf)"
| "fmul PosInf PosInf = PosInf"
| "fmul NegInf NegInf = PosInf"
| "fmul _ _ = NegInf"

text \<open>The comparison \<^verbatim>\<open>a > b\<close>: false as soon as one side is a NaN.\<close>

fun fgt :: "float32 \<Rightarrow> float32 \<Rightarrow> bool" where
  "fgt NaN _ = False"
| "fgt _ NaN = False"
| "fgt (Finite a) (Finite b) = (b < a)"
| "fgt (Finite a) PosInf = False"
| "fgt (Finite a) NegInf = True"
| "fgt PosInf PosInf = False"
| "fgt PosInf _ = True"
| "fgt NegInf _ = False"

text \<open>\<^verbatim>\<open>std::ceil\<close> and \<^verbatim>\<open>std::round\<close> (halves away from zero) on a float: the
  result is an integer of at most 24 significant bits, or the argument itself above
  \<open>2\<^sup>2\<^sup>3\<close>, so it is representable and no rounding happens.\<close>

fun fceil :: "float32 \<Rightarrow> float32" where
  "fceil (Finite a) = Finite (of_int \<lceil>a\<rceil>)"
| "fceil x = x"

definition round_half_away :: "rat \<Rightarrow> int" where
  "round_half_away a = (if 0 \<le> a then \<lfloor>a + 1 / 2\<rfloor> else \<lceil>a - 1 / 2\<rceil>)"

fun fround :: "float32 \<Rightarrow> float32" where
  "fround (Finite a) = Finite (of_int (round_half_away a))"
| "fround x = x"

text \<open>The conversion \<^verbatim>\<open>int(x)\<close> of a float drops the fraction; it is undefined
  when the truncated value is not an \<^verbatim>\<open>int\<close>.\<close>

definition trunc :: "rat \<Rightarrow> int" where
  "trunc a = (if 0 \<le> a then \<lfloor>a\<rfloor> else \<lceil>a\<rceil>)"

fun float_to_int :: "float32 \<Rightarrow> fault + int" where
  "float_to_int (Finite a) =
     (if INT_MIN \<le> trunc a \<and> trunc a \<le> INT_MAX then Inr (trunc a)
      else Inl FloatToIntRange)"
| "float_to_int _ = Inl FloatToIntRange"

section \<open>The dual-threshold sizing policy\<close>

text \<open>
  \<^verbatim>\<open>(x + base - 1) / base * base\<close>, evaluated from the left as C++ does.
\<close>

definition align_up :: "int \<Rightarrow> int \<Rightarrow> fault + int" where
  "align_up x base =
     and_then (chk_int (x + base)) (\<lambda>s.
     and_then (chk_int (s - 1)) (\<lambda>t.
     and_then (c_div t base) (\<lambda>q.
     chk_int (q * base))))"

text \<open>The last four statements of both exits of \<^verbatim>\<open>cal_dst_size\<close>: align the
  height, align the width, then \<^verbatim>\<open>std::max\<close> each with \<open>base\<close>.\<close>

definition align_pair :: "int \<Rightarrow> int \<Rightarrow> int \<Rightarrow> fault + (int \<times> int)" where
  "align_pair dst_height dst_width base =
     and_then (align_up dst_height base) (\<lambda>h.
     and_then (align_up dst_width base) (\<lambda>w.
     Inr (max h base, max w base)))"

text \<open>Lines 34 to 44: the long edge, the short edge and the \<open>swap\<close> flag.\<close>

definition orient :: "int \<Rightarrow> int \<Rightarrow> int \<times> int \<times> bool" where
  "orient src_height src_width =
     (if src_height > src_width then (src_height, src_width, False)
      else (src_width, src_height, True))"

definition cal_dst_size :: "int \<Rightarrow> int \<Rightarrow> int \<Rightarrow> int \<Rightarrow> int \<Rightarrow> fault + (int \<times> int)" where
  "cal_dst_size src_height src_width long_min short_min base =
     (let base_ratio = fdiv (int_to_float long_min) (int_to_float short_min);
          (cur_long, cur_short, swap) = orient src_height src_width;
          cur_ratio = fdiv (int_to_float cur_long) (int_to_float cur_short)
      in if cur_long > long_min \<and> cur_short > short_min then
           align_pair (if swap then cur_short else cur_long)
                      (if swap then cur_long else cur_short) base
         else if fgt cur_ratio base_ratio then
           (let ratio = fdiv (int_to_float short_min) (int_to_float cur_short)
            in and_then (float_to_int (fceil (fmul ratio (int_to_float cur_long))))
                 (\<lambda>new_long.
                    align_pair (if swap then short_min else new_long)
                               (if swap then new_long else short_min) base))
         else
           (let ratio = fdiv (int_to_float long_min) (int_to_float cur_long)
            in and_then (float_to_int (fceil (fmul ratio (int_to_float cur_short))))
                 (\<lambda>new_short.
                    align_pair (if swap then new_short else long_min)
                               (if swap then long_min else new_short) base)))"

section \<open>Images, operators and the preprocessor object\<close>

text \<open>
  An image buffer \<^verbatim>\<open>FDMat\<close> has a width, a height and its pixels, a vector of channel
  values at every column \<open>x\<close> and row \<open>y\<close>. A batch carries its images in order,
  the channel layout and whether the pixel values have been normalised.
\<close>

type_synonym pixel = "float32 list"

record FDMat =
  Width :: int
  Height :: int
  pixels :: "int \<Rightarrow> int \<Rightarrow> pixel"

datatype layout = HWC | CHW

record FDMatBatch =
  mats :: "FDMat list"
  layout :: layout
  normalized :: bool

text \<open>The three reusable operators hold their parameters between calls. A member
  \<^verbatim>\<open>name_\<close> of the source is the field \<open>name\<close> here; the parameters of the
  operators carry the prefixes \<open>rs\<close>, \<open>pad\<close> and \<open>np\<close>.\<close>

record Resize =
  rs_width :: int
  rs_height :: int

record Pad =
  pad_top :: int
  pad_bottom :: int
  pad_left :: int
  pad_right :: int
  pad_value :: "float32 list"

record NormalizeAndPermute =
  np_mean :: "float32 list"
  np_std :: "float32 list"
  np_is_scale :: bool

text \<open>One entry of \<^verbatim>\<open>batch_det_img_info_\<close>, a \<^verbatim>\<open>std::array<int, 4>\<close>: the
  original width, the original height, the target width (index 2) and the target
  height (index 3).\<close>

type_synonym img_info = "int \<times> int \<times> int \<times> int"

definition info_w :: "img_info \<Rightarrow> int" where
  "info_w i = (case i of (w, h, resize_w, resize_h) \<Rightarrow> resize_w)"

definition info_h :: "img_info \<Rightarrow> int" where
  "info_h i = (case i of (w, h, resize_w, resize_h) \<Rightarrow> resize_h)"

record DBDetectorPreprocessor =
  static_shape_infer :: bool
  det_image_shape :: "int list"
  longside_size :: int
  shortside_size :: int
  disable_normalize :: bool
  disable_permute :: bool
  resize_op :: Resize
  pad_op :: Pad
  normalize_permute_op :: NormalizeAndPermute
  batch_det_img_info :: "img_info list"

text \<open>
  The constructor builds the three operators. The other members are initialised by the
  class declaration, which is not part of the sources at hand: they are taken as they
  come, in \<open>p\<close>.
\<close>

definition DBDetectorPreprocessor_ctor :: "DBDetectorPreprocessor \<Rightarrow> DBDetectorPreprocessor" where
  "DBDetectorPreprocessor_ctor p =
     p\<lparr>resize_op := \<lparr>rs_width = - 1, rs_height = - 1\<rparr>,
       pad_op := \<lparr>pad_top = 0, pad_bottom = 0, pad_left = 0, pad_right = 0,
                   pad_value = [Finite 0, Finite 0, Finite 0]\<rparr>,
       normalize_permute_op :=
         \<lparr>np_mean = [round_f32 (485 / 1000), round_f32 (456 / 1000), round_f32 (406 / 1000)],
          np_std = [round_f32 (229 / 1000), round_f32 (224 / 1000), round_f32 (225 / 1000)],
          np_is_scale = True\<rparr>\<rparr>"

text \<open>\<^verbatim>\<open>v[i]\<close> on a \<^verbatim>\<open>std::vector\<close>.\<close>

definition vec_at :: "'a list \<Rightarrow> nat \<Rightarrow> fault + 'a" where
  "vec_at v i = (if i < length v then Inr (v ! i) else Inl IndexOutOfRange)"

subsection \<open>The external primitives\<close>

text \<open>
  Modelled from the spec: the resampling primitive \<^verbatim>\<open>Resize\<close> (its source,
  \<^verbatim>\<open>fastdeploy/vision/common/processors/resize.cc\<close>, is missing). The spec gives it
  as an in-place \<^verbatim>\<open>resize(target_w, target_h)\<close>, a pure scale to the target size
  that fails loudly on an invalid shape. The resampling kernel itself is the parameter
  \<open>resample\<close>: the pixels of the scaled image, from the image and the target size.
\<close>

type_synonym resampler = "FDMat \<Rightarrow> int \<Rightarrow> int \<Rightarrow> int \<Rightarrow> int \<Rightarrow> pixel"

definition Resize_apply :: "resampler \<Rightarrow> Resize \<Rightarrow> FDMat \<Rightarrow> fault + FDMat" where
  "Resize_apply resample op img =
     (if 0 < rs_width op \<and> 0 < rs_height op then
        Inr \<lparr>Width = rs_width op, Height = rs_height op,
             pixels = resample img (rs_width op) (rs_height op)\<rparr>
      else Inl InvalidShape)"

text \<open>
  Modelled from the spec: the padding primitive \<^verbatim>\<open>Pad\<close> (its source,
  \<^verbatim>\<open>fastdeploy/vision/common/processors/pad.cc\<close>, is missing). The spec gives it as
  an in-place \<^verbatim>\<open>pad(top, bottom, left, right, fill_value)\<close> that extends the image by
  the four amounts with pixels of the fill value, a negative amount being fatal.
\<close>

definition Pad_apply :: "Pad \<Rightarrow> FDMat \<Rightarrow> fault + FDMat" where
  "Pad_apply op img =
     (if 0 \<le> pad_top op \<and> 0 \<le> pad_bottom op \<and> 0 \<le> pad_left op \<and> 0 \<le> pad_right op then
        Inr \<lparr>Width = Width img + pad_left op + pad_right op,
             Height = Height img + pad_top op + pad_bottom op,
             pixels = (\<lambda>x y.
               if pad_left op \<le> x \<and> x < pad_left op + Width img \<and>
                  pad_top op \<le> y \<and> y < pad_top op + Height img
               then pixels img (x - pad_left op) (y - pad_top op)
               else pad_value op)\<rparr>
      else Inl InvalidShape)"

text \<open>
  Modelled from the spec: the batched primitive \<^verbatim>\<open>NormalizeAndPermute\<close> (its source,
  \<^verbatim>\<open>fastdeploy/vision/common/processors/normalize_and_permute.cc\<close>, is missing). The
  spec gives it as one step over the whole batch that normalises every channel by its
  mean and variance and permutes the layout from interleaved to planar. The pixel
  arithmetic is not modelled: the batch records that it has been normalised.
\<close>

definition NormalizeAndPermute_apply :: "NormalizeAndPermute \<Rightarrow> FDMatBatch \<Rightarrow> FDMatBatch" where
  "NormalizeAndPermute_apply op batch = batch\<lparr>layout := CHW, normalized := True\<rparr>"

subsection \<open>The single-threshold policy\<close>

text \<open>
  \<^verbatim>\<open>std::max(int(std::round(float(x) / 32) * 32), 32)\<close> without the
  \<^verbatim>\<open>std::max\<close>: the literal \<open>32\<close> is converted to \<^verbatim>\<open>float\<close> on both sides.
\<close>

definition round_to_32 :: "int \<Rightarrow> fault + int" where
  "round_to_32 x =
     float_to_int (fmul (fround (fdiv (int_to_float x) (int_to_float 32))) (int_to_float 32))"

definition static_info :: "DBDetectorPreprocessor \<Rightarrow> int \<Rightarrow> int \<Rightarrow> fault + img_info" where
  "static_info p w h =
     and_then (vec_at (det_image_shape p) 2) (\<lambda>sw.
     and_then (vec_at (det_image_shape p) 1) (\<lambda>sh.
     Inr (w, h, sw, sh)))"

definition OcrDetectorGetInfo_max ::
  "DBDetectorPreprocessor \<Rightarrow> FDMat \<Rightarrow> int \<Rightarrow> fault + img_info" where
  "OcrDetectorGetInfo_max p img max_size_len =
     (let w = Width img; h = Height img
      in if static_shape_infer p then static_info p w h
         else
           (let max_wh = (if w \<ge> h then w else h);
                ratio = (if max_wh > max_size_len then
                           (if h > w then fdiv (int_to_float max_size_len) (int_to_float h)
                            else fdiv (int_to_float max_size_len) (int_to_float w))
                         else Finite 1)
            in and_then (float_to_int (fmul (int_to_float h) ratio)) (\<lambda>resize_h.
               and_then (float_to_int (fmul (int_to_float w) ratio)) (\<lambda>resize_w.
               and_then (round_to_32 resize_h) (\<lambda>rh.
               and_then (round_to_32 resize_w) (\<lambda>rw.
               Inr (w, h, max rw 32, max rh 32)))))))"

subsection \<open>The policy in use\<close>

definition OcrDetectorGetInfo :: "DBDetectorPreprocessor \<Rightarrow> FDMat \<Rightarrow> fault + img_info" where
  "OcrDetectorGetInfo p img =
     (let w = Width img; h = Height img
      in if static_shape_infer p then static_info p w h
         else and_then (cal_dst_size h w (longside_size p) (shortside_size p) 32)
                (\<lambda>dst_size. Inr (w, h, snd dst_size, fst dst_size)))"

subsection \<open>Resizing and padding one image\<close>

definition ResizeImage ::
  "resampler \<Rightarrow> DBDetectorPreprocessor \<Rightarrow> FDMat \<Rightarrow> int \<Rightarrow> int \<Rightarrow> int \<Rightarrow> int
     \<Rightarrow> fault + (DBDetectorPreprocessor \<times> FDMat)" where
  "ResizeImage resample p img resize_w resize_h max_resize_w max_resize_h =
     (let p1 = p\<lparr>resize_op := (resize_op p)\<lparr>rs_width := resize_w, rs_height := resize_h\<rparr>\<rparr>
      in and_then (Resize_apply resample (resize_op p1) img) (\<lambda>img1.
         and_then (chk_int (max_resize_h - resize_h)) (\<lambda>pad_bottom.
         and_then (chk_int (max_resize_w - resize_w)) (\<lambda>pad_right.
         (let p2 = p1\<lparr>pad_op := (pad_op p1)\<lparr>pad_top := 0, pad_bottom := pad_bottom,
                                                pad_left := 0, pad_right := pad_right\<rparr>\<rparr>
          in and_then (Pad_apply (pad_op p2) img1) (\<lambda>img2. Inr (p2, img2)))))))"

subsection \<open>The batch\<close>

text \<open>The first loop of \<^verbatim>\<open>Apply\<close>: the target of every image, in order, and the
  running maxima, which start at 0.\<close>

fun info_loop ::
  "DBDetectorPreprocessor \<Rightarrow> FDMat list \<Rightarrow> int \<Rightarrow> int \<Rightarrow> img_info list
     \<Rightarrow> fault + (int \<times> int \<times> img_info list)" where
  "info_loop p [] max_resize_w max_resize_h infos = Inr (max_resize_w, max_resize_h, infos)"
| "info_loop p (mat # rest) max_resize_w max_resize_h infos =
     and_then (OcrDetectorGetInfo p mat) (\<lambda>i.
       info_loop p rest (max max_resize_w (info_w i)) (max max_resize_h (info_h i))
         (infos @ [i]))"

text \<open>The second loop: every image, in order, with its own entry of
  \<^verbatim>\<open>batch_det_img_info_\<close>.\<close>

fun resize_loop ::
  "resampler \<Rightarrow> DBDetectorPreprocessor \<Rightarrow> FDMat list \<Rightarrow> img_info list \<Rightarrow> int \<Rightarrow> int
     \<Rightarrow> fault + (DBDetectorPreprocessor \<times> FDMat list)" where
  "resize_loop resample p [] infos max_resize_w max_resize_h = Inr (p, [])"
| "resize_loop resample p (mat # rest) [] max_resize_w max_resize_h = Inl IndexOutOfRange"
| "resize_loop resample p (mat # rest) (i # infos) max_resize_w max_resize_h =
     and_then (ResizeImage resample p mat (info_w i) (info_h i) max_resize_w max_resize_h)
       (\<lambda>r. and_then (resize_loop resample (fst r) rest infos max_resize_w max_resize_h)
         (\<lambda>rs. Inr (fst rs, snd r # snd rs)))"

text \<open>
  \<^verbatim>\<open>Apply\<close> returns the preprocessor and the batch as it leaves them. The output
  descriptor, a view of the tensor of the batch, is not modelled.
\<close>

definition Apply ::
  "resampler \<Rightarrow> DBDetectorPreprocessor \<Rightarrow> FDMatBatch
     \<Rightarrow> fault + (DBDetectorPreprocessor \<times> FDMatBatch \<times> bool)" where
  "Apply resample p image_batch =
     and_then (info_loop p (mats image_batch) 0 0 []) (\<lambda>r.
       (case r of (max_resize_w, max_resize_h, infos) \<Rightarrow>
          and_then (resize_loop resample (p\<lparr>batch_det_img_info := infos\<rparr>)
                      (mats image_batch) infos max_resize_w max_resize_h) (\<lambda>rs.
            (let p2 = fst rs;
                 b1 = image_batch\<lparr>mats := snd rs\<rparr>;
                 b2 = (if \<not> disable_normalize p2 \<and> \<not> disable_permute p2
                       then NormalizeAndPermute_apply (normalize_permute_op p2) b1
                       else b1)
             in Inr (p2, b2, True)))))"

section \<open>The sizing rules in the words of the specification\<close>

text \<open>
  Rounding up to a multiple of the alignment base, then flooring at one base unit: the
  least multiple of \<open>base\<close> that is not below \<open>x\<close>, and \<open>base\<close> itself when that
  multiple is smaller.
\<close>

definition spec_align :: "int \<Rightarrow> int \<Rightarrow> int" where
  "spec_align x base = max (\<lceil>rat_of_int x / rat_of_int base\<rceil> * base) base"

text \<open>
  Scaling an edge \<open>c\<close> by the ratio \<open>a / b\<close> and rounding up: the ratio is a float,
  the product is a float, and the result is its ceiling.
\<close>

definition spec_scale_ceil :: "int \<Rightarrow> int \<Rightarrow> int \<Rightarrow> int" where
  "spec_scale_ceil a b c = \<lceil>rnd (rnd (rat_of_int a / rat_of_int b) * rat_of_int c)\<rceil>"

text \<open>
  Rounding to the nearest multiple of 32, halves away from zero, then flooring at 32.
\<close>

definition spec_nearest32 :: "rat \<Rightarrow> int" where
  "spec_nearest32 v = max (32 * round_half_away (v / 32)) 32"

section \<open>A preprocessor and images for the examples\<close>

text \<open>
  A freshly constructed preprocessor with a dynamic shape, the thresholds 960 and 640
  and both steps enabled, and an image of a given size whose pixels are all black.
\<close>

definition example_preprocessor :: DBDetectorPreprocessor where
  "example_preprocessor =
     DBDetectorPreprocessor_ctor
       \<lparr>static_shape_infer = False, det_image_shape = [3, 960, 960],
        longside_size = 960, shortside_size = 640,
        disable_normalize = False, disable_permute = False,
        resize_op = \<lparr>rs_width = 0, rs_height = 0\<rparr>,
        pad_op = \<lparr>pad_top = 0, pad_bottom = 0, pad_left = 0, pad_right = 0, pad_value = []\<rparr>,
        normalize_permute_op = \<lparr>np_mean = [], np_std = [], np_is_scale = False\<rparr>,
        batch_det_img_info = []\<rparr>"

definition black_image :: "int \<Rightarrow> int \<Rightarrow> FDMat" where
  "black_image w h = \<lparr>Width = w, Height = h, pixels = (\<lambda>x y. [Finite 0, Finite 0, Finite 0])\<rparr>"

text \<open>Another kernel for the examples: every pixel of the scaled image is the top-left
  pixel of the source.\<close>

definition corner_resample :: resampler where
  "corner_resample img w h x y = pixels img 0 0"

text \<open>What a call of \<^verbatim>\<open>Apply\<close> leaves of the layout and the normalisation of the
  batch.\<close>

definition layout_after ::
  "fault + (DBDetectorPreprocessor \<times> FDMatBatch \<times> bool) \<Rightarrow> fault + (layout \<times> bool)" where
  "layout_after r =
     (case r of Inl e \<Rightarrow> Inl e | Inr t \<Rightarrow> Inr (layout (fst (snd t)), normalized (fst (snd t))))"

text \<open>A batch of two images of different sizes, 2000 by 3000 and 512 by 256, in the
  layout of decoded images.\<close>

definition example_batch :: FDMatBatch where
  "example_batch =
     \<lparr>mats = [black_image 2000 3000, black_image 512 256], layout = HWC, normalized = False\<rparr>"

section \<open>Properties of the rounding\<close>

subsection \<open>The exponent\<close>


lemma expo_ge1:
  assumes "1 \<le> x"
  shows "2 powi (expo x) \<le> x \<and> x < 2 powi (expo x + 1)"
proof -
  define n where "n = nat \<lfloor>x\<rfloor>"
  define k where "k = floorlog 2 n"
  have n0: "0 < n" using assms by (simp add: n_def)
  have b: "2 ^ (k - 1) \<le> n \<and> n < 2 ^ k"
    unfolding k_def using floorlog_bounds [of n 2] n0 by simp
  have k1: "1 \<le> k" using b n0 by (cases k) auto
  have e: "expo x = int (k - 1)" using assms k1 by (simp add: expo_def n_def k_def)
  have nx: "rat_of_nat n \<le> x" using assms by (simp add: n_def)
  have xn: "x < rat_of_nat n + 1" using assms by (simp add: n_def) linarith
  have "rat_of_nat (2 ^ (k - 1)) \<le> rat_of_nat n" using b by (simp only: of_nat_le_iff)
  then have "(2::rat) ^ (k - 1) \<le> rat_of_nat n" by simp
  moreover have "2 powi (expo x) = (2::rat) ^ (k - 1)" using e by simp
  ultimately have lo: "2 powi (expo x) \<le> x" using nx by linarith
  have "n + 1 \<le> 2 ^ k" using b by simp
  then have "rat_of_nat (n + 1) \<le> rat_of_nat (2 ^ k)" by (simp only: of_nat_le_iff)
  then have "rat_of_nat n + 1 \<le> 2 ^ k" by simp
  moreover have "expo x + 1 = int k" using e k1 by simp
  then have "2 powi (expo x + 1) = (2::rat) ^ k" by simp
  ultimately have hi: "x < 2 powi (expo x + 1)" using xn by linarith
  show ?thesis using lo hi by simp
qed


lemma expo_lt1:
  assumes "0 < x" "x < 1"
  shows "2 powi (expo x) \<le> x \<and> x < 2 powi (expo x + 1)"
proof -
  define c where "c = \<lceil>1 / x\<rceil>"
  define n where "n = nat (c - 1)"
  define k where "k = floorlog 2 n"
  have y1: "1 < 1 / x" using assms by simp
  have c2: "2 \<le> c" using y1 unfolding c_def by linarith
  have n0: "0 < n" using c2 by (simp add: n_def)
  have b: "2 ^ (k - 1) \<le> n \<and> n < 2 ^ k"
    unfolding k_def using floorlog_bounds [of n 2] n0 by simp
  have k1: "1 \<le> k" using b n0 by (cases k) auto
  have e: "expo x = - int k" using assms by (simp add: expo_def n_def k_def c_def)
  have cn: "c = int n + 1" using c2 by (simp add: n_def)
  have "n + 1 \<le> 2 ^ k" using b by simp
  then have "rat_of_nat (n + 1) \<le> rat_of_nat (2 ^ k)" by (simp only: of_nat_le_iff)
  then have "rat_of_nat n + 1 \<le> 2 ^ k" by simp
  moreover have "rat_of_int c = rat_of_nat n + 1" using cn by simp
  moreover have "1 / x \<le> of_int c" unfolding c_def by linarith
  ultimately have "1 / x \<le> 2 ^ k" by linarith
  then have lo: "1 / 2 ^ k \<le> x" using assms(1)
    by (simp add: field_simps)
  have "rat_of_nat (2 ^ (k - 1)) \<le> rat_of_nat n" using b by (simp only: of_nat_le_iff)
  then have "(2::rat) ^ (k - 1) \<le> rat_of_nat n" by simp
  moreover have "rat_of_nat n = rat_of_int c - 1" using cn by simp
  moreover have "of_int c - 1 < 1 / x" unfolding c_def by linarith
  ultimately have "(2::rat) ^ (k - 1) < 1 / x" by linarith
  then have hi: "x < 1 / 2 ^ (k - 1)" using assms(1)
    by (simp add: field_simps)
  have p1: "(2::rat) powi (- int k) = 1 / 2 ^ k" by (simp add: power_int_minus_divide)
  have "- int k + 1 = - int (k - 1)" using k1 by simp
  then have p2: "(2::rat) powi (- int k + 1) = 1 / 2 ^ (k - 1)"
    by (simp only: power_int_minus_divide power_int_of_nat)
  show ?thesis using lo hi e p1 p2 by simp
qed

lemma expo_bounds:
  assumes "0 < x"
  shows "2 powi (expo x) \<le> x" and "x < 2 powi (expo x + 1)"
  using expo_ge1 [of x] expo_lt1 [of x] assms by (cases "1 \<le> x"; simp)+

lemma expo_unique:
  assumes "0 < x" "2 powi e \<le> x" "x < 2 powi (e + 1)"
  shows "expo x = e"
proof (rule ccontr)
  assume ne: "expo x \<noteq> e"
  show False
  proof (cases "expo x < e")
    case True
    then have "(2::rat) powi (expo x + 1) \<le> 2 powi e" by (intro power_int_increasing) auto
    then show False using expo_bounds(2) [OF assms(1)] assms(2) by linarith
  next
    case False
    then have "e + 1 \<le> expo x" using ne by simp
    then have "(2::rat) powi (e + 1) \<le> 2 powi (expo x)" by (intro power_int_increasing) auto
    then show False using expo_bounds(1) [OF assms(1)] assms(3) by linarith
  qed
qed


subsection \<open>Rounding to the nearest integer, ties to even\<close>

lemma round_even_of_int: "round_even (of_int k) = k"
  by (simp add: round_even_def)

lemma round_even_mono:
  assumes "r \<le> s" shows "round_even r \<le> round_even s"
proof -
  have fm: "\<lfloor>r\<rfloor> \<le> \<lfloor>s\<rfloor>" using assms by (rule floor_mono)
  show ?thesis
  proof (cases "\<lfloor>r\<rfloor> = \<lfloor>s\<rfloor>")
    case True
    then show ?thesis using assms by (auto simp: round_even_def Let_def)
  next
    case False
    then have "\<lfloor>r\<rfloor> + 1 \<le> \<lfloor>s\<rfloor>" using fm by simp
    moreover have "round_even r \<le> \<lfloor>r\<rfloor> + 1" by (simp add: round_even_def Let_def)
    moreover have "\<lfloor>s\<rfloor> \<le> round_even s" by (simp add: round_even_def Let_def)
    ultimately show ?thesis by linarith
  qed
qed

lemma round_even_ge: "of_int k \<le> r \<Longrightarrow> k \<le> round_even r"
  using round_even_mono [of "of_int k" r] by (simp add: round_even_of_int)

lemma round_even_le: "r \<le> of_int k \<Longrightarrow> round_even r \<le> k"
  using round_even_mono [of r "of_int k"] by (simp add: round_even_of_int)

lemma round_even_cases:
  fixes r :: rat and f :: int
  assumes "of_int f \<le> r" "r < of_int f + 1"
  shows "round_even r = (if r - of_int f < 1 / 2 then f
                         else if 1 / 2 < r - of_int f then f + 1
                         else if even f then f else f + 1)"
proof -
  have "\<lfloor>r\<rfloor> = f" using assms by linarith
  then show ?thesis by (simp add: round_even_def Let_def)
qed

lemma round_even_minus: "round_even (- r) = - round_even r"
proof (cases "r = of_int \<lfloor>r\<rfloor>")
  case True
  then have "- r = of_int (- \<lfloor>r\<rfloor>)" by simp
  then have "round_even (- r) = - \<lfloor>r\<rfloor>" by (simp only: round_even_of_int)
  moreover have "round_even r = \<lfloor>r\<rfloor>" using True round_even_of_int [of "\<lfloor>r\<rfloor>"] by simp
  ultimately show ?thesis by simp
next
  case False
  define f where "f = \<lfloor>r\<rfloor>"
  have lo: "of_int f < r" using False unfolding f_def
    by (metis floor_less_cancel floor_of_int not_less of_int_floor_le order.not_eq_order_implies_strict)
  have hi: "r < of_int f + 1" unfolding f_def by linarith
  have a: "round_even r = (if r - of_int f < 1 / 2 then f
                         else if 1 / 2 < r - of_int f then f + 1
                         else if even f then f else f + 1)"
    using round_even_cases [of f r] lo hi by simp
  have b: "round_even (- r) = (if - r - of_int (- f - 1) < 1 / 2 then - f - 1
                         else if 1 / 2 < - r - of_int (- f - 1) then (- f - 1) + 1
                         else if even (- f - 1) then - f - 1 else (- f - 1) + 1)"
    using round_even_cases [of "- f - 1" "- r"] lo hi by simp
  show ?thesis unfolding a b by (simp; linarith)
qed


subsection \<open>Rounding to 24 significant bits\<close>

lemma pow2_le_iff: "(2::rat) powi a \<le> 2 powi b \<longleftrightarrow> a \<le> b"
proof
  assume h: "(2::rat) powi a \<le> 2 powi b"
  show "a \<le> b"
  proof (rule ccontr)
    assume "\<not> a \<le> b"
    then have "b < a" by simp
    then have "(2::rat) powi b < 2 powi a" by (intro power_int_strict_increasing) auto
    then show False using h by simp
  qed
next
  assume "a \<le> b"
  then show "(2::rat) powi a \<le> 2 powi b" by (intro power_int_increasing) auto
qed

lemma pow2_less_iff: "(2::rat) powi a < 2 powi b \<longleftrightarrow> a < b"
  using pow2_le_iff [of b a] by (auto simp: not_le [symmetric])

lemma pow2_split: "(2::rat) powi (a - b) = 2 powi a / 2 powi b"
  by (rule power_int_diff) simp

lemma pow2_join: "(2::rat) powi a * 2 powi b = 2 powi (a + b)"
  by (rule power_int_add [symmetric]) simp

lemma quantum_pos: "0 < quantum x"
  by (simp add: quantum_def)

lemma quantum_minus: "quantum (- x) = quantum x"
  by (simp add: quantum_def)

lemma rnd_minus: "rnd (- x) = - rnd x"
  by (simp add: rnd_def quantum_minus round_even_minus)

lemma rnd_0: "rnd 0 = 0"
  by (simp add: rnd_def)

lemma expo_ge_iff:
  assumes "0 < x"
  shows "a \<le> expo x \<longleftrightarrow> 2 powi a \<le> x"
proof
  assume "a \<le> expo x"
  then have "(2::rat) powi a \<le> 2 powi (expo x)" by (simp add: pow2_le_iff)
  then show "2 powi a \<le> x" using expo_bounds(1) [OF assms] by linarith
next
  assume "2 powi a \<le> x"
  then have "(2::rat) powi a < 2 powi (expo x + 1)" using expo_bounds(2) [OF assms] by linarith
  then show "a \<le> expo x" by (simp add: pow2_less_iff)
qed

lemma rnd_normal:
  assumes "0 < x" "2 powi e \<le> x" "x < 2 powi (e + 1)" "- 126 \<le> e"
  shows "rnd x = of_int (round_even (x / 2 powi (e - 23))) * 2 powi (e - 23)"
proof -
  have "expo x = e" using assms by (intro expo_unique) auto
  then have "quantum x = 2 powi (e - 23)" using assms by (simp add: quantum_def max_def)
  then show ?thesis using assms(1) by (simp add: rnd_def)
qed

lemma rnd_binade:
  assumes "0 < x" "2 powi e \<le> x" "x < 2 powi (e + 1)" "- 126 \<le> e"
  shows "2 powi e \<le> rnd x" and "rnd x \<le> 2 powi (e + 1)"
proof -
  define q :: rat where "q = 2 powi (e - 23)"
  have q0: "0 < q" by (simp add: q_def)
  have r: "rnd x = of_int (round_even (x / q)) * q"
    unfolding q_def using assms by (rule rnd_normal)
  have "23 + (e - 23) = e" "24 + (e - 23) = e + 1" by simp_all
  then have "(2::rat) powi 23 * 2 powi (e - 23) = 2 powi e"
    and "(2::rat) powi 24 * 2 powi (e - 23) = 2 powi (e + 1)"
    by (simp_all only: pow2_join)
  then have lo_q: "2 powi e = 2 ^ 23 * q" and hi_q: "2 powi (e + 1) = 2 ^ 24 * q"
    unfolding q_def by simp_all
  have "2 ^ 23 * q \<le> x" using assms(2) lo_q by simp
  then have "2 ^ 23 \<le> x / q" using q0 by (simp add: field_simps)
  then have "rat_of_int (2 ^ 23) \<le> x / q" by simp
  then have "2 ^ 23 \<le> round_even (x / q)" by (rule round_even_ge)
  then have "rat_of_int (2 ^ 23) \<le> of_int (round_even (x / q))" by (simp only: of_int_le_iff)
  then have "rat_of_int (2 ^ 23) * q \<le> of_int (round_even (x / q)) * q"
    using q0 by (simp only: mult_le_cancel_right_pos)
  then show "2 powi e \<le> rnd x" using r lo_q by simp
  have "x \<le> 2 ^ 24 * q" using assms(3) hi_q by simp
  then have "x / q \<le> 2 ^ 24" using q0 by (simp add: field_simps)
  then have "x / q \<le> rat_of_int (2 ^ 24)" by simp
  then have "round_even (x / q) \<le> 2 ^ 24" by (rule round_even_le)
  then have "of_int (round_even (x / q)) \<le> rat_of_int (2 ^ 24)" by (simp only: of_int_le_iff)
  then have "of_int (round_even (x / q)) * q \<le> rat_of_int (2 ^ 24) * q"
    using q0 by (simp only: mult_le_cancel_right_pos)
  then show "rnd x \<le> 2 powi (e + 1)" using r hi_q by simp
qed

lemma rnd_exact_pos:
  assumes "0 < m" "m < 2 ^ 24" "- 149 \<le> j"
  shows "rnd (of_int m * 2 powi j) = of_int m * 2 powi j"
proof -
  define x :: rat where "x = of_int m * 2 powi j"
  have x0: "0 < x" using assms(1) by (simp add: x_def)
  define e where "e = max (expo x) (- 126)"
  define q :: rat where "q = 2 powi (e - 23)"
  have q0: "0 < q" by (simp add: q_def)
  have qx: "quantum x = q" using x0 by (simp add: quantum_def q_def e_def)
  have "rat_of_int m < rat_of_int (2 ^ 24)" using assms(2) by (simp only: of_int_less_iff)
  then have "rat_of_int m < 2 powi 24" by simp
  then have "x < 2 powi 24 * 2 powi j" unfolding x_def by (simp)
  then have "x < 2 powi (j + 24)" using pow2_join [of 24 j] by (simp add: add.commute)
  moreover have "2 powi (expo x) \<le> x" using expo_bounds(1) [OF x0] .
  ultimately have "(2::rat) powi (expo x) < 2 powi (j + 24)" by linarith
  then have "expo x < j + 24" by (simp add: pow2_less_iff)
  then have d0: "0 \<le> j - (e - 23)" using assms(3) by (simp add: e_def)
  have "(2::rat) powi j / q = 2 powi (j - (e - 23))" unfolding q_def by (rule pow2_split [symmetric])
  also have "\<dots> = 2 ^ nat (j - (e - 23))" using d0 by (simp add: power_int_nonneg_exp)
  finally have "(2::rat) powi j / q = 2 ^ nat (j - (e - 23))" .
  then have "rat_of_int m * (2 powi j / q) = rat_of_int m * 2 ^ nat (j - (e - 23))" by simp
  then have "x / q = rat_of_int (m * 2 ^ nat (j - (e - 23)))" by (simp add: x_def)
  then have "round_even (x / q) = m * 2 ^ nat (j - (e - 23))" by (simp only: round_even_of_int)
  then have "of_int (round_even (x / q)) = x / q" using \<open>x / q = _\<close> by simp
  then have "of_int (round_even (x / q)) * q = x" using q0 by simp
  then show ?thesis using x0 qx unfolding x_def [symmetric] by (simp add: rnd_def)
qed

lemma rnd_exact:
  assumes "\<bar>m\<bar> < 2 ^ 24" "- 149 \<le> j"
  shows "rnd (of_int m * 2 powi j) = of_int m * 2 powi j"
proof -
  consider "m = 0" | "0 < m" | "m < 0" by linarith
  then show ?thesis
  proof cases
    case 1 then show ?thesis by (simp add: rnd_0)
  next
    case 2 then show ?thesis using assms rnd_exact_pos [of m j] by simp
  next
    case 3
    then have "rnd (of_int (- m) * 2 powi j) = of_int (- m) * 2 powi j"
      using assms by (intro rnd_exact_pos) auto
    then have "rnd (- (of_int m * 2 powi j)) = - (of_int m * 2 powi j)" by simp
    then show ?thesis by (simp only: rnd_minus neg_equal_iff_equal)
  qed
qed

lemma rnd_int_exact:
  assumes "\<bar>n\<bar> \<le> 2 ^ 24"
  shows "rnd (of_int n) = of_int n"
proof (cases "\<bar>n\<bar> = 2 ^ 24")
  case True
  then have "n = 2 ^ 24 \<or> n = - (2 ^ 24)" by linarith
  moreover have "rnd (of_int (1::int) * 2 powi 24) = of_int 1 * 2 powi 24"
    by (rule rnd_exact) auto
  moreover have "rnd (of_int (- 1::int) * 2 powi 24) = of_int (- 1) * 2 powi 24"
    by (rule rnd_exact) auto
  ultimately show ?thesis by auto
next
  case False
  then have "rnd (of_int n * 2 powi 0) = of_int n * 2 powi 0"
    using assms by (intro rnd_exact) auto
  then show ?thesis by simp
qed


section \<open>Alignment\<close>

lemma and_then_Inr [simp]: "and_then (Inr x) f = f x"
  by (simp add: and_then_def)

lemma and_then_Inl [simp]: "and_then (Inl e) f = Inl e"
  by (simp add: and_then_def)

lemma chk_int_ok: "INT_MIN \<le> x \<Longrightarrow> x \<le> INT_MAX \<Longrightarrow> chk_int x = Inr x"
  by (simp add: chk_int_def)

lemma ceiling_div_int:
  fixes x b :: int
  assumes "0 < b"
  shows "\<lceil>rat_of_int x / rat_of_int b\<rceil> = (x + b - 1) div b"
proof -
  define z where "z = (x + b - 1) div b"
  have m: "z * b + (x + b - 1) mod b = x + b - 1"
    unfolding z_def by (rule div_mult_mod_eq)
  have r: "0 \<le> (x + b - 1) mod b" "(x + b - 1) mod b < b"
    using assms by simp_all
  have i1: "x \<le> z * b" using m r by linarith
  have i2: "(z - 1) * b < x" using m r by (simp add: algebra_simps)
  have b0: "0 < rat_of_int b" using assms by simp
  have "rat_of_int x \<le> rat_of_int (z * b)" using i1 by (simp only: of_int_le_iff)
  then have u: "rat_of_int x / rat_of_int b \<le> rat_of_int z"
    using b0 by (simp add: field_simps)
  have "rat_of_int ((z - 1) * b) < rat_of_int x" using i2 by (simp only: of_int_less_iff)
  then have l: "rat_of_int z - 1 < rat_of_int x / rat_of_int b"
    using b0 by (simp add: field_simps)
  show ?thesis unfolding z_def [symmetric] using l u by (simp add: ceiling_eq_iff)
qed

lemma spec_align_eq:
  assumes "0 < base"
  shows "spec_align x base = max ((x + base - 1) div base * base) base"
  by (simp add: spec_align_def ceiling_div_int [OF assms])

lemma spec_align_props:
  assumes "0 < base" "0 < x"
  shows "base dvd spec_align x base" "x \<le> spec_align x base"
    "spec_align x base < x + base" "base \<le> spec_align x base"
proof -
  define z where "z = (x + base - 1) div base"
  have m: "z * base + (x + base - 1) mod base = x + base - 1"
    unfolding z_def by (rule div_mult_mod_eq)
  have r: "0 \<le> (x + base - 1) mod base" "(x + base - 1) mod base < base"
    using assms by simp_all
  have "base \<le> x + base - 1" using assms by simp
  then have "1 \<le> z" unfolding z_def using assms(1)
    by (metis div_by_1 int_div_less_self linorder_not_less pos_imp_zdiv_pos_iff zdiv_mono1 div_self less_irrefl)
  then have zb: "base \<le> z * base" using assms(1) by (simp add: mult_le_cancel_right1)
  have e: "spec_align x base = z * base"
    using zb by (simp add: spec_align_eq [OF assms(1)] z_def)
  show "base dvd spec_align x base" by (simp add: e)
  show "x \<le> spec_align x base" using m r by (simp add: e)
  show "spec_align x base < x + base" using m r by (simp add: e)
  show "base \<le> spec_align x base" using zb by (simp add: e)
qed

text \<open>The truncating division of C++ and the floor division agree on the aligned size,
  once it is floored at one base unit.\<close>

lemma align_up_spec:
  assumes "0 < base" "INT_MIN \<le> x" "x + base \<le> INT_MAX"
  shows "\<exists>a. align_up x base = Inr a \<and> max a base = spec_align x base"
proof -
  define t where "t = x + base - 1"
  define q where "q = sgn t * sgn base * (\<bar>t\<bar> div \<bar>base\<bar>)"
  have rng: "INT_MIN \<le> t" "t \<le> INT_MAX" "INT_MIN \<le> x + base" 
    using assms by (simp_all add: t_def INT_MIN_def INT_MAX_def)
  define d where "d = \<bar>t\<bar> div base"
  have d0: "0 \<le> d" using assms(1) by (simp add: d_def pos_imp_zdiv_nonneg_iff)
  have dm: "d * base \<le> \<bar>t\<bar>"
    using div_mult_mod_eq [of "\<bar>t\<bar>" base] pos_mod_sign [of base "\<bar>t\<bar>"] assms(1)
    unfolding d_def by linarith
  have "d * 1 \<le> d * base" using assms(1) d0 by (intro mult_left_mono) simp_all
  then have dt: "d \<le> \<bar>t\<bar>" using dm by simp
  have qd: "q = sgn t * d" using assms(1) by (simp add: q_def d_def)
  have qr: "INT_MIN \<le> q" "q \<le> INT_MAX" "INT_MIN \<le> q * base" "q * base \<le> INT_MAX"
  proof -
    have db0: "0 \<le> d * base" using d0 assms(1) by simp
    have c: "(0 \<le> t \<and> d \<le> t \<and> d * base \<le> t) \<or> (t < 0 \<and> d \<le> - t \<and> d * base \<le> - t)"
      using dm dt by linarith
    show "INT_MIN \<le> q" "q \<le> INT_MAX" "INT_MIN \<le> q * base" "q * base \<le> INT_MAX"
      using rng d0 db0 c unfolding qd INT_MIN_def INT_MAX_def
      by (auto simp: sgn_if)
  qed
  have q': "sgn t * (\<bar>t\<bar> div base) = q" by (simp add: qd d_def)
  have a: "align_up x base = Inr (q * base)"
    using assms rng qr
    by (simp add: align_up_def c_div_def chk_int_ok t_def [symmetric] q')
  have "max (q * base) base = max (t div base * base) base"
  proof (cases "0 \<le> t")
    case True
    then have "q = t div base" using assms(1) by (simp add: q_def sgn_if)
    then show ?thesis by simp
  next
    case False
    then have "t div base < 0" using assms(1) by (simp add: div_neg_pos_less0)
    then have "t div base * base \<le> 0" using assms(1) by (simp add: mult_le_0_iff)
    moreover have "q \<le> 0" using False assms(1) by (simp add: q_def sgn_if pos_imp_zdiv_nonneg_iff)
    then have "q * base \<le> 0" using assms(1) by (simp add: mult_le_0_iff)
    ultimately show ?thesis using assms(1) by simp
  qed
  then have "max (q * base) base = spec_align x base"
    by (simp add: spec_align_eq [OF assms(1)] t_def)
  then show ?thesis using a by simp
qed


lemma align_pair_spec:
  assumes "0 < base" "INT_MIN \<le> a" "a + base \<le> INT_MAX" "INT_MIN \<le> b" "b + base \<le> INT_MAX"
  shows "align_pair a b base = Inr (spec_align a base, spec_align b base)"
  using align_up_spec [OF assms(1,2,3)] align_up_spec [OF assms(1,4,5)]
  by (auto simp: align_pair_def)

section \<open>Evaluating float operations\<close>

lemma round_f32_normal:
  assumes "0 < x" "2 powi e \<le> x" "x < 2 powi (e + 1)" "- 126 \<le> e" "e < 127"
  shows "round_f32 x = Finite (of_int (round_even (x / 2 powi (e - 23))) * 2 powi (e - 23))"
proof -
  have "rnd x \<le> 2 powi (e + 1)" using assms(1-4) by (rule rnd_binade(2))
  moreover have "e + 1 \<le> 127" using assms(5) by simp
  then have "(2::rat) powi (e + 1) \<le> 2 powi 127" by (simp only: pow2_le_iff)
  moreover have "(2::rat) powi 127 < 2 ^ 128" by simp
  moreover have "0 < rnd x" using rnd_binade(1) [OF assms(1-4)] 
    by (meson less_le_trans zero_less_numeral zero_less_power_int)
  ultimately have "rnd x < 2 ^ 128" "\<not> rnd x \<le> - (2 ^ 128)" by linarith+
  then show ?thesis using rnd_normal [OF assms(1-4)] by (simp add: round_f32_def Let_def)
qed

lemma int_to_float_exact:
  assumes "\<bar>n\<bar> \<le> 2 ^ 24"
  shows "int_to_float n = Finite (of_int n)"
proof -
  have "\<bar>rat_of_int n\<bar> \<le> rat_of_int (2 ^ 24)" using assms by (simp only: of_int_abs [symmetric] of_int_le_iff)
  then have "rat_of_int n < 2 ^ 128" "\<not> rat_of_int n \<le> - (2 ^ 128)" by (simp_all add: abs_le_iff) 
  then show ?thesis using rnd_int_exact [OF assms] by (simp add: int_to_float_def round_f32_def Let_def)
qed

lemma floor_rat_numeral [simp]:
  "\<lfloor>(numeral a :: rat) / numeral b\<rfloor> = numeral a div numeral b"
  using floor_divide_of_int_eq [of "numeral a" "numeral b", where ?'a = rat] by simp

lemma floor_rat_neg_numeral [simp]:
  "\<lfloor>- ((numeral a :: rat) / numeral b)\<rfloor> = (- numeral a) div numeral b"
  using floor_divide_of_int_eq [of "- numeral a" "numeral b", where ?'a = rat] by simp

lemma ceiling_rat_numeral [simp]:
  "\<lceil>(numeral a :: rat) / numeral b\<rceil> = - ((- numeral a) div numeral b)"
  by (simp add: ceiling_def)

section \<open>Bounds of the float computations of the dual-threshold policy\<close>

lemma rnd_pow2_ge:
  assumes "2 powi a \<le> x" "- 126 \<le> a"
  shows "2 powi a \<le> rnd x"
proof -
  have x0: "0 < x" using assms(1) by (meson less_le_trans zero_less_numeral zero_less_power_int)
  have ae: "a \<le> expo x" using assms(1) by (simp add: expo_ge_iff [OF x0])
  have "2 powi (expo x) \<le> rnd x"
    using x0 expo_bounds [OF x0] ae assms(2) by (intro rnd_binade(1)) auto
  moreover have "(2::rat) powi a \<le> 2 powi (expo x)" using ae by (simp only: pow2_le_iff)
  ultimately show ?thesis by linarith
qed

lemma rnd_pow2_le:
  assumes "2 powi a \<le> x" "- 126 \<le> a" "x \<le> 2 powi b"
  shows "rnd x \<le> 2 powi b"
proof (cases "x = 2 powi b")
  case True
  have "(2::rat) powi a \<le> 2 powi b" using assms(1,3) by linarith
  then have "a \<le> b" by (simp only: pow2_le_iff)
  then have "rnd (of_int 1 * 2 powi b) = of_int 1 * 2 powi b"
    using assms(2) by (intro rnd_exact) auto
  then show ?thesis using True by simp
next
  case False
  have x0: "0 < x" using assms(1) by (meson less_le_trans zero_less_numeral zero_less_power_int)
  have ae: "a \<le> expo x" using assms(1) by (simp add: expo_ge_iff [OF x0])
  have "(2::rat) powi (expo x) < 2 powi b" using expo_bounds(1) [OF x0] assms(3) False by linarith
  then have "expo x + 1 \<le> b" by (simp add: pow2_less_iff)
  then have "(2::rat) powi (expo x + 1) \<le> 2 powi b" by (simp only: pow2_le_iff)
  moreover have "rnd x \<le> 2 powi (expo x + 1)"
    using x0 expo_bounds [OF x0] ae assms(2) by (intro rnd_binade(2)) auto
  ultimately show ?thesis by linarith
qed

lemma round_f32_bounds:
  assumes "2 powi a \<le> x" "- 126 \<le> a" "x \<le> 2 powi b" "b \<le> 127"
  shows "round_f32 x = Finite (rnd x)" and "2 powi a \<le> rnd x" and "rnd x \<le> 2 powi b"
proof -
  show lo: "2 powi a \<le> rnd x" using assms(1,2) by (rule rnd_pow2_ge)
  show hi: "rnd x \<le> 2 powi b" using assms(1,2,3) by (rule rnd_pow2_le)
  have "(2::rat) powi b \<le> 2 powi 127" using assms(4) by (simp only: pow2_le_iff)
  moreover have "(2::rat) powi 127 < 2 ^ 128" by simp
  moreover have "(0::rat) < 2 powi a" by simp
  ultimately have "rnd x < 2 ^ 128" "\<not> rnd x \<le> - (2 ^ 128)" using lo hi by linarith+
  then show "round_f32 x = Finite (rnd x)" by (simp add: round_f32_def Let_def)
qed


lemma fdiv_ints:
  assumes "0 < a" "a \<le> 2 ^ 15" "0 < b" "b \<le> 2 ^ 15"
  shows "fdiv (int_to_float a) (int_to_float b) = Finite (rnd (of_int a / of_int b))"
    and "2 powi (- 15) \<le> rnd (rat_of_int a / of_int b)"
    and "rnd (rat_of_int a / of_int b) \<le> 2 powi 15"
proof -
  have ia: "int_to_float a = Finite (of_int a)" using assms(1,2) by (intro int_to_float_exact) simp
  have ib: "int_to_float b = Finite (of_int b)" using assms(3,4) by (intro int_to_float_exact) simp
  have a1: "1 \<le> rat_of_int a" "rat_of_int a \<le> 2 ^ 15"
    using assms(1,2) by (simp_all add: of_int_le_numeral_power_cancel_iff)
  have b1: "1 \<le> rat_of_int b" "rat_of_int b \<le> 2 ^ 15"
    using assms(3,4) by (simp_all add: of_int_le_numeral_power_cancel_iff)
  have "1 * 2 ^ 15 \<le> rat_of_int a * 2 ^ 15" using a1(1) by (intro mult_right_mono) simp_all
  then have "rat_of_int b \<le> rat_of_int a * 2 ^ 15" using b1(2) by linarith
  then have lo: "2 powi (- 15) \<le> rat_of_int a / rat_of_int b"
    using b1(1) by (simp add: power_int_minus_divide field_simps)
  have "2 ^ 15 * 1 \<le> 2 ^ 15 * rat_of_int b" using b1(1) by (intro mult_left_mono) simp_all
  then have "rat_of_int a \<le> 2 ^ 15 * rat_of_int b" using a1(2) by linarith
  then have hi: "rat_of_int a / rat_of_int b \<le> 2 powi 15"
    using b1(1) by (simp add: field_simps)
  show "fdiv (int_to_float a) (int_to_float b) = Finite (rnd (of_int a / of_int b))"
    using assms(3) round_f32_bounds(1) [OF lo _ hi] by (simp add: ia ib)
  show "2 powi (- 15) \<le> rnd (rat_of_int a / of_int b)"
    using round_f32_bounds(2) [OF lo _ hi] by simp
  show "rnd (rat_of_int a / of_int b) \<le> 2 powi 15"
    using round_f32_bounds(3) [OF lo _ hi] by simp
qed


lemma trunc_of_int [simp]: "trunc (of_int k) = k"
  by (simp add: trunc_def)

lemma scaled_edge:
  assumes "0 < a" "a \<le> 2 ^ 15" "0 < b" "b \<le> 2 ^ 15" "0 < c" "c \<le> 2 ^ 15"
  defines "v \<equiv> rnd (rnd (rat_of_int a / rat_of_int b) * rat_of_int c)"
  shows "fmul (fdiv (int_to_float a) (int_to_float b)) (int_to_float c) = Finite v"
    and "float_to_int (fceil (fmul (fdiv (int_to_float a) (int_to_float b)) (int_to_float c)))
           = Inr \<lceil>v\<rceil>"
    and "0 < \<lceil>v\<rceil>" and "\<lceil>v\<rceil> \<le> 2 ^ 30"
proof -
  define r where "r = rnd (rat_of_int a / rat_of_int b)"
  have q: "fdiv (int_to_float a) (int_to_float b) = Finite r"
    and rlo: "2 powi (- 15) \<le> r" and rhi: "r \<le> 2 powi 15"
    unfolding r_def using assms(1-4) by (rule fdiv_ints)+
  have ic: "int_to_float c = Finite (of_int c)" using assms(5,6) by (intro int_to_float_exact) simp
  have c1: "1 \<le> rat_of_int c" "rat_of_int c \<le> 2 ^ 15"
    using assms(5,6) by (simp_all add: of_int_le_numeral_power_cancel_iff)
  have r0: "0 < r" using rlo by (meson less_le_trans zero_less_numeral zero_less_power_int)
  have "2 powi (- 15) * 1 \<le> r * rat_of_int c"
    using rlo c1(1) by (intro mult_mono) simp_all
  then have lo: "2 powi (- 15) \<le> r * rat_of_int c" by simp
  have "r * rat_of_int c \<le> 2 powi 15 * 2 ^ 15"
    using rhi c1 r0 by (intro mult_mono) simp_all
  then have hi: "r * rat_of_int c \<le> 2 powi 30" by simp
  have v: "v = rnd (r * rat_of_int c)" by (simp add: v_def r_def)
  show m: "fmul (fdiv (int_to_float a) (int_to_float b)) (int_to_float c) = Finite v"
    using round_f32_bounds(1) [OF lo _ hi] by (simp add: q ic v)
  have vlo: "2 powi (- 15) \<le> v" using round_f32_bounds(2) [OF lo _ hi] by (simp add: v)
  have vhi: "v \<le> 2 powi 30" using round_f32_bounds(3) [OF lo _ hi] by (simp add: v)
  have v0: "0 < v" using vlo by (meson less_le_trans zero_less_numeral zero_less_power_int)
  show c0: "0 < \<lceil>v\<rceil>" using v0 by simp
  have "v \<le> rat_of_int (2 ^ 30)" using vhi by simp
  then show chi: "\<lceil>v\<rceil> \<le> 2 ^ 30" by (simp only: ceiling_le_iff)
  show "float_to_int (fceil (fmul (fdiv (int_to_float a) (int_to_float b)) (int_to_float c)))
           = Inr \<lceil>v\<rceil>"
    using c0 chi by (simp add: m INT_MIN_def INT_MAX_def)
qed


lemma orient_cases:
  assumes "orient src_height src_width = (cur_long, cur_short, swap)"
  shows "(src_width < src_height \<and> cur_long = src_height \<and> cur_short = src_width \<and> \<not> swap)
       \<or> (src_height \<le> src_width \<and> cur_long = src_width \<and> cur_short = src_height \<and> swap)"
  using assms by (auto simp: orient_def split: if_splits)

lemma cal_dst_size_scaled:
  assumes "0 < src_height" "src_height \<le> 2 ^ 15" "0 < src_width" "src_width \<le> 2 ^ 15"
    and "0 < long_min" "long_min \<le> 2 ^ 15" "0 < short_min" "short_min \<le> 2 ^ 15"
    and "0 < base" "base \<le> 2 ^ 15"
    and o: "orient src_height src_width = (cur_long, cur_short, swap)"
    and nb: "\<not> (long_min < cur_long \<and> short_min < cur_short)"
  shows "cal_dst_size src_height src_width long_min short_min base =
     (if rnd (rat_of_int long_min / rat_of_int short_min)
           < rnd (rat_of_int cur_long / rat_of_int cur_short)
      then Inr (if swap
                then (spec_align short_min base,
                      spec_align (spec_scale_ceil short_min cur_short cur_long) base)
                else (spec_align (spec_scale_ceil short_min cur_short cur_long) base,
                      spec_align short_min base))
      else Inr (if swap
                then (spec_align (spec_scale_ceil long_min cur_long cur_short) base,
                      spec_align long_min base)
                else (spec_align long_min base,
                      spec_align (spec_scale_ceil long_min cur_long cur_short) base)))"
proof -
  have cl: "0 < cur_long" "cur_long \<le> 2 ^ 15" and cs: "0 < cur_short" "cur_short \<le> 2 ^ 15"
    using orient_cases [OF o] assms(1-4) by auto
  have br: "fdiv (int_to_float long_min) (int_to_float short_min)
              = Finite (rnd (rat_of_int long_min / rat_of_int short_min))"
    using assms(5-8) by (intro fdiv_ints(1))
  have cr: "fdiv (int_to_float cur_long) (int_to_float cur_short)
              = Finite (rnd (rat_of_int cur_long / rat_of_int cur_short))"
    using cl cs by (intro fdiv_ints(1))
  note nl = scaled_edge(2-4) [OF assms(7,8) cs cl, folded spec_scale_ceil_def]
  note ns = scaled_edge(2-4) [OF assms(5,6) cl cs, folded spec_scale_ceil_def]
  have al: "\<And>x y. 0 < x \<Longrightarrow> x \<le> 2 ^ 30 \<Longrightarrow> 0 < y \<Longrightarrow> y \<le> 2 ^ 30 \<Longrightarrow>
      align_pair x y base = Inr (spec_align x base, spec_align y base)"
    using assms(9,10) by (intro align_pair_spec) (simp_all add: INT_MIN_def INT_MAX_def)
  have sm30: "short_min \<le> 2 ^ 30" using assms(8) by simp
  have lm30: "long_min \<le> 2 ^ 30" using assms(6) by simp
  have nb': "(long_min < cur_long \<and> short_min < cur_short) = False" using nb by simp
  show ?thesis
    using nl ns al sm30 lm30 assms(5,7)
    by (simp add: cal_dst_size_def o Let_def br cr nb')
qed



section \<open>The float computations of the single-threshold policy\<close>

lemma round_f32_exact:
  assumes "\<bar>m\<bar> < 2 ^ 24" "- 149 \<le> j" "j \<le> 100"
  shows "round_f32 (of_int m * 2 powi j) = Finite (of_int m * 2 powi j)"
proof -
  have "\<bar>m\<bar> \<le> 2 ^ 24" using assms(1) by simp
  then have "\<bar>rat_of_int m\<bar> \<le> rat_of_int (2 ^ 24)"
    by (simp only: of_int_abs [symmetric] of_int_le_iff)
  then have m: "\<bar>rat_of_int m\<bar> \<le> 2 powi 24" by simp
  have "(2::rat) powi j \<le> 2 powi 100" using assms(3) by (simp only: pow2_le_iff)
  then have "\<bar>rat_of_int m\<bar> * 2 powi j \<le> 2 powi 24 * 2 powi 100"
    using m by (intro mult_mono) simp_all
  then have "\<bar>rat_of_int m * 2 powi j\<bar> \<le> 2 powi 124" by (simp add: abs_mult)
  moreover have "(2::rat) powi 124 < 2 ^ 128" by simp
  ultimately have "rat_of_int m * 2 powi j < 2 ^ 128" "\<not> rat_of_int m * 2 powi j \<le> - (2 ^ 128)"
    by linarith+
  then show ?thesis using rnd_exact [OF assms(1,2)] by (simp add: round_f32_def Let_def)
qed

lemma round_to_32_small:
  assumes "0 \<le> s" "s \<le> 2 ^ 24"
  shows "round_to_32 s = Inr (32 * round_half_away (rat_of_int s / 32))"
proof -
  have fs: "int_to_float s = Finite (of_int s)" using assms by (intro int_to_float_exact) simp
  have i32: "int_to_float 32 = Finite 32" using int_to_float_exact [of 32] by simp
  have d: "round_f32 (rat_of_int s / 32) = Finite (rat_of_int s / 32)"
  proof (cases "s = 2 ^ 24")
    case True
    have "round_f32 (of_int (2 ^ 19) * 2 powi 0) = Finite (of_int (2 ^ 19) * 2 powi 0)"
      by (rule round_f32_exact) simp_all
    then show ?thesis using True by simp
  next
    case False
    then have "round_f32 (of_int s * 2 powi (- 5)) = Finite (of_int s * 2 powi (- 5))"
      using assms by (intro round_f32_exact) simp_all
    then show ?thesis by (simp add: power_int_minus_divide)
  qed
  define k where "k = round_half_away (rat_of_int s / 32)"
  have s0: "0 \<le> rat_of_int s / 32" using assms(1) by simp
  have "rat_of_int s \<le> rat_of_int (2 ^ 24)" using assms(2) by (simp only: of_int_le_iff)
  then have "rat_of_int s / 32 + 1 / 2 \<le> 2 ^ 19 + 1 / 2" by simp
  then have "\<lfloor>rat_of_int s / 32 + 1 / 2\<rfloor> \<le> \<lfloor>(2 ^ 19 + 1 / 2 :: rat)\<rfloor>" by (rule floor_mono)
  moreover have "\<lfloor>(2 ^ 19 + 1 / 2 :: rat)\<rfloor> = 2 ^ 19" by simp
  ultimately have khi: "k \<le> 2 ^ 19" using s0 by (simp add: k_def round_half_away_def)
  have klo: "0 \<le> k" using s0 by (simp add: k_def round_half_away_def)
  have "\<bar>k * 32\<bar> \<le> 2 ^ 24" using klo khi by simp
  then have "int_to_float (k * 32) = Finite (of_int (k * 32))" by (rule int_to_float_exact)
  then have p: "round_f32 (rat_of_int k * 32) = Finite (rat_of_int k * 32)"
    by (simp add: int_to_float_def)
  have "float_to_int (Finite (rat_of_int (k * 32))) = Inr (k * 32)"
    using klo khi by (simp only: float_to_int.simps trunc_of_int) (simp add: INT_MIN_def INT_MAX_def)
  then show ?thesis
    by (simp add: round_to_32_def fs i32 d k_def [symmetric] p mult.commute)
qed


lemma round_f32_0: "round_f32 0 = Finite 0"
  by (simp add: round_f32_def rnd_0)

lemma int_to_float_0: "int_to_float 0 = Finite 0"
  by (simp add: int_to_float_def round_f32_0)

lemma scale_by_ratio:
  assumes "0 < x" "x \<le> 2 ^ 24" "0 \<le> msl" "msl < m" "m \<le> 2 ^ 24"
  defines "v \<equiv> rnd (rat_of_int x * rnd (rat_of_int msl / rat_of_int m))"
  shows "fmul (int_to_float x) (fdiv (int_to_float msl) (int_to_float m)) = Finite v"
    and "0 \<le> v" and "v \<le> 2 ^ 24"
proof -
  have ix: "int_to_float x = Finite (of_int x)" using assms(1,2) by (intro int_to_float_exact) simp
  have il: "int_to_float msl = Finite (of_int msl)" using assms(3,4,5) by (intro int_to_float_exact) simp
  have im: "int_to_float m = Finite (of_int m)" using assms(3,4,5) by (intro int_to_float_exact) simp
  have m0: "rat_of_int m \<noteq> 0" using assms(3,4) by simp
  have x1: "1 \<le> rat_of_int x" "rat_of_int x \<le> 2 ^ 24"
    using assms(1,2) by (simp_all add: of_int_le_numeral_power_cancel_iff)
  have main: "fmul (int_to_float x) (fdiv (int_to_float msl) (int_to_float m)) = Finite v
        \<and> 0 \<le> v \<and> v \<le> 2 ^ 24"
  proof (cases "msl = 0")
    case True
    then show ?thesis using assms(4) by (simp add: ix int_to_float_0 im v_def rnd_0 round_f32_0)
  next
    case False
    then have l1: "1 \<le> rat_of_int msl" using assms(3) by simp
    have mr: "1 \<le> rat_of_int m" "rat_of_int m \<le> 2 ^ 24" "rat_of_int msl \<le> rat_of_int m"
      using assms(3,4,5) by (simp_all add: of_int_le_numeral_power_cancel_iff)
    have "rat_of_int m \<le> 2 ^ 24 * rat_of_int msl" using mr(2) l1
      by (smt (verit, best) mult_left_mono mult.right_neutral order_trans zero_le_numeral zero_le_power)
    then have lo: "2 powi (- 24) \<le> rat_of_int msl / rat_of_int m"
      using mr(1) by (simp add: power_int_minus_divide field_simps)
    have hi: "rat_of_int msl / rat_of_int m \<le> 2 powi 0" using mr by (simp add: field_simps)
    define r where "r = rnd (rat_of_int msl / rat_of_int m)"
    have q: "round_f32 (rat_of_int msl / rat_of_int m) = Finite r"
      and rlo: "2 powi (- 24) \<le> r" and rhi: "r \<le> 2 powi 0"
      unfolding r_def using round_f32_bounds [OF lo _ hi] by simp_all
    have r0: "0 < r" using rlo by (meson less_le_trans zero_less_numeral zero_less_power_int)
    have "1 * 2 powi (- 24) \<le> rat_of_int x * r" using x1(1) rlo by (intro mult_mono) simp_all
    then have plo: "2 powi (- 24) \<le> rat_of_int x * r" by simp
    have "rat_of_int x * r \<le> 2 ^ 24 * 2 powi 0" using x1 rhi r0 by (intro mult_mono) simp_all
    then have phi: "rat_of_int x * r \<le> 2 powi 24" by simp
    have "round_f32 (rat_of_int x * r) = Finite v" "2 powi (- 24) \<le> v" "v \<le> 2 powi 24"
      unfolding v_def r_def [symmetric] using round_f32_bounds [OF plo _ phi] by simp_all
    moreover have "(0::rat) < 2 powi (- 24)" by simp
    ultimately show ?thesis using m0 by (simp add: ix il im q)
  qed
  show "fmul (int_to_float x) (fdiv (int_to_float msl) (int_to_float m)) = Finite v"
    and "0 \<le> v" and "v \<le> 2 ^ 24"
    using main by simp_all
qed

lemma floor_shift_32:
  fixes v :: rat
  shows "\<lfloor>(rat_of_int \<lfloor>v\<rfloor> + 16) / 32\<rfloor> = \<lfloor>(v + 16) / 32\<rfloor>"
proof -
  define k where "k = \<lfloor>(v + 16) / 32\<rfloor>"
  have "rat_of_int k \<le> (v + 16) / 32" "(v + 16) / 32 < rat_of_int k + 1"
    unfolding k_def by linarith+
  then have a: "rat_of_int (32 * k - 16) \<le> v" "v < rat_of_int (32 * k + 16)"
    by (simp_all add: field_simps)
  have "32 * k - 16 \<le> \<lfloor>v\<rfloor>" using a(1) by (simp only: le_floor_iff)
  moreover have "\<lfloor>v\<rfloor> < 32 * k + 16" using a(2) by (simp only: floor_less_iff)
  ultimately have "32 * k \<le> \<lfloor>v\<rfloor> + 16" "\<lfloor>v\<rfloor> + 16 < 32 * k + 32" by simp_all
  then have "rat_of_int (32 * k) \<le> rat_of_int (\<lfloor>v\<rfloor> + 16)"
    "rat_of_int (\<lfloor>v\<rfloor> + 16) < rat_of_int (32 * k + 32)"
    by (simp_all only: of_int_le_iff of_int_less_iff)
  then have "rat_of_int k \<le> (rat_of_int \<lfloor>v\<rfloor> + 16) / 32"
    "(rat_of_int \<lfloor>v\<rfloor> + 16) / 32 < rat_of_int k + 1"
    by (simp_all add: field_simps)
  then show ?thesis unfolding k_def [symmetric] by (simp add: floor_eq_iff)
qed

lemma round_half_away_trunc:
  assumes "0 \<le> v"
  shows "round_half_away (rat_of_int (trunc v) / 32) = round_half_away (v / 32)"
proof -
  have "0 \<le> rat_of_int \<lfloor>v\<rfloor>" using assms by simp
  then have "round_half_away (rat_of_int \<lfloor>v\<rfloor> / 32) = \<lfloor>rat_of_int \<lfloor>v\<rfloor> / 32 + 1 / 2\<rfloor>"
    by (simp add: round_half_away_def)
  also have "rat_of_int \<lfloor>v\<rfloor> / 32 + 1 / 2 = (rat_of_int \<lfloor>v\<rfloor> + 16) / 32" by simp
  also have "\<lfloor>\<dots>\<rfloor> = \<lfloor>(v + 16) / 32\<rfloor>" by (rule floor_shift_32)
  also have "(v + 16) / 32 = v / 32 + 1 / 2" by simp
  also have "\<lfloor>v / 32 + 1 / 2\<rfloor> = round_half_away (v / 32)"
    using assms by (simp add: round_half_away_def)
  finally show ?thesis using assms by (simp add: trunc_def)
qed

lemma round_half_away_error:
  "\<bar>rat_of_int (round_half_away r) - r\<bar> \<le> 1 / 2"
proof (cases "0 \<le> r")
  case True
  have "rat_of_int \<lfloor>r + 1 / 2\<rfloor> \<le> r + 1 / 2" "r + 1 / 2 < rat_of_int \<lfloor>r + 1 / 2\<rfloor> + 1"
    by linarith+
  moreover have "round_half_away r = \<lfloor>r + 1 / 2\<rfloor>" using True by (simp add: round_half_away_def)
  ultimately show ?thesis by linarith
next
  case False
  have "rat_of_int \<lceil>r - 1 / 2\<rceil> - 1 < r - 1 / 2" "r - 1 / 2 \<le> rat_of_int \<lceil>r - 1 / 2\<rceil>"
    by linarith+
  moreover have "round_half_away r = \<lceil>r - 1 / 2\<rceil>" using False by (simp add: round_half_away_def)
  ultimately show ?thesis by linarith
qed

lemma round_half_away_near:
  "\<bar>rat_of_int (32 * round_half_away (v / 32)) - v\<bar> \<le> 16"
proof -
  define k where "k = rat_of_int (round_half_away (v / 32))"
  have "\<bar>k - v / 32\<bar> \<le> 1 / 2" unfolding k_def by (rule round_half_away_error)
  then have "- (1 / 2) \<le> k - v / 32" "k - v / 32 \<le> 1 / 2" by linarith+
  then have "- 16 \<le> 32 * k - v" "32 * k - v \<le> 16" by linarith+
  then have "\<bar>32 * k - v\<bar> \<le> 16" by linarith
  then show ?thesis by (simp add: k_def)
qed


lemma edge_to_int:
  assumes "0 \<le> v" "v \<le> 2 ^ 24"
  shows "float_to_int (Finite v) = Inr (trunc v)"
    and "round_to_32 (trunc v) = Inr (32 * round_half_away (v / 32))"
proof -
  have t0: "0 \<le> trunc v" using assms(1) by (simp add: trunc_def)
  have "v \<le> rat_of_int (2 ^ 24)" using assms(2) by simp
  then have "\<lfloor>v\<rfloor> \<le> 2 ^ 24" by (metis floor_mono floor_of_int)
  then have t1: "trunc v \<le> 2 ^ 24" using assms(1) by (simp add: trunc_def)
  show "float_to_int (Finite v) = Inr (trunc v)"
    using t0 t1 by (simp add: INT_MIN_def INT_MAX_def)
  show "round_to_32 (trunc v) = Inr (32 * round_half_away (v / 32))"
    using round_to_32_small [OF t0 t1] round_half_away_trunc [OF assms(1)] by simp
qed

lemma OcrDetectorGetInfo_max_result:
  assumes "\<not> static_shape_infer p"
    and "0 < Width img" "Width img \<le> 2 ^ 24" "0 < Height img" "Height img \<le> 2 ^ 24"
    and "0 \<le> max_size_len"
  shows "\<exists>sw sh.
          (if max_size_len < max (Width img) (Height img)
           then fmul (int_to_float (Width img))
                  (fdiv (int_to_float max_size_len)
                        (int_to_float (max (Width img) (Height img)))) = Finite sw
              \<and> fmul (int_to_float (Height img))
                  (fdiv (int_to_float max_size_len)
                        (int_to_float (max (Width img) (Height img)))) = Finite sh
           else sw = rat_of_int (Width img) \<and> sh = rat_of_int (Height img))
        \<and> OcrDetectorGetInfo_max p img max_size_len
            = Inr (Width img, Height img, spec_nearest32 sw, spec_nearest32 sh)
        \<and> \<bar>rat_of_int (32 * round_half_away (sw / 32)) - sw\<bar> \<le> 16
        \<and> \<bar>rat_of_int (32 * round_half_away (sh / 32)) - sh\<bar> \<le> 16"
proof -
  define w where "w = Width img"
  define h where "h = Height img"
  define m where "m = max w h"
  have wr: "0 < w" "w \<le> 2 ^ 24" and hr: "0 < h" "h \<le> 2 ^ 24"
    using assms(2-5) by (simp_all add: w_def h_def)
  have mr: "m \<le> 2 ^ 24" using wr hr by (simp add: m_def)
  have mm: "(if h \<le> w then w else h) = m" by (simp add: m_def max_def)
  show ?thesis
  proof (cases "max_size_len < m")
    case True
    define ratio where "ratio = fdiv (int_to_float max_size_len) (int_to_float m)"
    have rt: "(if w < h then fdiv (int_to_float max_size_len) (int_to_float h)
               else fdiv (int_to_float max_size_len) (int_to_float w)) = ratio"
      by (simp add: ratio_def m_def max_def)
    define sw where "sw = rnd (rat_of_int w * rnd (rat_of_int max_size_len / rat_of_int m))"
    define sh where "sh = rnd (rat_of_int h * rnd (rat_of_int max_size_len / rat_of_int m))"
    have fw: "fmul (int_to_float w) ratio = Finite sw" and w0: "0 \<le> sw" and w1: "sw \<le> 2 ^ 24"
      unfolding ratio_def sw_def using wr assms(6) True mr by (rule scale_by_ratio)+
    have fh: "fmul (int_to_float h) ratio = Finite sh" and h0: "0 \<le> sh" and h1: "sh \<le> 2 ^ 24"
      unfolding ratio_def sh_def using hr assms(6) True mr by (rule scale_by_ratio)+
    have "OcrDetectorGetInfo_max p img max_size_len
            = Inr (w, h, spec_nearest32 sw, spec_nearest32 sh)"
      using assms(1) True
      by (simp add: OcrDetectorGetInfo_max_def Let_def w_def [symmetric] h_def [symmetric]
          mm rt fw fh edge_to_int [OF w0 w1] edge_to_int [OF h0 h1] spec_nearest32_def
          del: float_to_int.simps)
    then show ?thesis
      using True fw fh round_half_away_near [of sw] round_half_away_near [of sh]
      unfolding ratio_def m_def w_def h_def
      by (intro exI [of _ sw] exI [of _ sh]) simp
  next
    case False
    have iw: "int_to_float w = Finite (rat_of_int w)" using wr by (intro int_to_float_exact) simp
    have ih: "int_to_float h = Finite (rat_of_int h)" using hr by (intro int_to_float_exact) simp
    have fw: "fmul (int_to_float w) (Finite 1) = Finite (rat_of_int w)"
      using iw by (simp add: int_to_float_def)
    have fh: "fmul (int_to_float h) (Finite 1) = Finite (rat_of_int h)"
      using ih by (simp add: int_to_float_def)
    have w0: "0 \<le> rat_of_int w" "rat_of_int w \<le> 2 ^ 24"
      using wr by (simp_all add: of_int_le_numeral_power_cancel_iff)
    have h0: "0 \<le> rat_of_int h" "rat_of_int h \<le> 2 ^ 24"
      using hr by (simp_all add: of_int_le_numeral_power_cancel_iff)
    have rw: "round_to_32 w = Inr (32 * round_half_away (rat_of_int w / 32))"
      using wr by (intro round_to_32_small) simp_all
    have rh: "round_to_32 h = Inr (32 * round_half_away (rat_of_int h / 32))"
      using hr by (intro round_to_32_small) simp_all
    have ir: "INT_MIN \<le> w" "w \<le> INT_MAX" "INT_MIN \<le> h" "h \<le> INT_MAX"
      using wr hr by (simp_all add: INT_MIN_def INT_MAX_def)
    have "OcrDetectorGetInfo_max p img max_size_len
            = Inr (w, h, spec_nearest32 (rat_of_int w), spec_nearest32 (rat_of_int h))"
      using assms(1) False
      by (simp add: OcrDetectorGetInfo_max_def Let_def w_def [symmetric] h_def [symmetric]
          mm fw fh rw rh ir spec_nearest32_def)
    then show ?thesis
      using False round_half_away_near [of "rat_of_int w"] round_half_away_near [of "rat_of_int h"]
      unfolding m_def w_def h_def by auto
  qed
qed

section \<open>The two loops of the batch\<close>

lemma and_then_eq_Inr: "and_then m f = Inr y \<longleftrightarrow> (\<exists>x. m = Inr x \<and> f x = Inr y)"
  by (cases m) simp_all

lemma chk_int_eq_Inr: "chk_int x = Inr y \<longleftrightarrow> y = x \<and> INT_MIN \<le> x \<and> x \<le> INT_MAX"
  by (auto simp: chk_int_def)

lemma ResizeImage_result:
  assumes "ResizeImage resample p img resize_w resize_h max_resize_w max_resize_h = Inr (p', img')"
  shows "0 < resize_w" and "0 < resize_h"
    and "resize_w \<le> max_resize_w" and "resize_h \<le> max_resize_h"
    and "Width img' = max_resize_w" and "Height img' = max_resize_h"
    and "pixels img' = (\<lambda>x y. if 0 \<le> x \<and> x < resize_w \<and> 0 \<le> y \<and> y < resize_h
                               then resample img resize_w resize_h x y
                               else pad_value (pad_op p))"
    and "p' = p\<lparr>resize_op := (resize_op p)\<lparr>rs_width := resize_w, rs_height := resize_h\<rparr>,
                  pad_op := (pad_op p)\<lparr>pad_top := 0, pad_bottom := max_resize_h - resize_h,
                                        pad_left := 0, pad_right := max_resize_w - resize_w\<rparr>\<rparr>"
  using assms
  by (auto simp: ResizeImage_def Let_def and_then_eq_Inr chk_int_eq_Inr Resize_apply_def
      Pad_apply_def fun_eq_iff split: if_splits)

lemma ResizeImage_returns:
  assumes "0 < resize_w" "0 < resize_h" "resize_w \<le> max_resize_w" "resize_h \<le> max_resize_h"
    and "max_resize_w \<le> INT_MAX" "max_resize_h \<le> INT_MAX"
  shows "\<exists>p' img'. ResizeImage resample p img resize_w resize_h max_resize_w max_resize_h
            = Inr (p', img')"
  using assms
  by (simp add: ResizeImage_def Let_def chk_int_def Resize_apply_def Pad_apply_def
      INT_MIN_def INT_MAX_def)


lemma Max_insert_max:
  fixes a b :: int
  assumes "finite S"
  shows "Max (insert (max a b) S) = Max (insert a (insert b S))"
proof (cases "S = {}")
  case True
  then show ?thesis by simp
next
  case False
  then show ?thesis using assms by (simp add: max.assoc)
qed

lemma info_loop_result:
  assumes "info_loop p ms mw mh infos = Inr (MW, MH, infos')"
  shows "\<exists>new. infos' = infos @ new \<and> length new = length ms
           \<and> (\<forall>k < length ms. OcrDetectorGetInfo p (ms ! k) = Inr (new ! k))
           \<and> MW = Max (insert mw (info_w ` set new))
           \<and> MH = Max (insert mh (info_h ` set new))"
  using assms
proof (induction ms arbitrary: mw mh infos)
  case Nil
  then show ?case by simp
next
  case (Cons m ms)
  from Cons.prems obtain i where i: "OcrDetectorGetInfo p m = Inr i"
    and r: "info_loop p ms (max mw (info_w i)) (max mh (info_h i)) (infos @ [i]) = Inr (MW, MH, infos')"
    by (auto simp: and_then_eq_Inr)
  from Cons.IH [OF r] obtain new where n: "infos' = (infos @ [i]) @ new" "length new = length ms"
    "\<forall>k < length ms. OcrDetectorGetInfo p (ms ! k) = Inr (new ! k)"
    "MW = Max (insert (max mw (info_w i)) (info_w ` set new))"
    "MH = Max (insert (max mh (info_h i)) (info_h ` set new))"
    by blast
  have w: "MW = Max (insert mw (info_w ` set (i # new)))"
    unfolding n(4) by (simp add: Max_insert_max del: Max_insert)
  have h: "MH = Max (insert mh (info_h ` set (i # new)))"
    unfolding n(5) by (simp add: Max_insert_max del: Max_insert)
  have "\<forall>k < length (m # ms). OcrDetectorGetInfo p ((m # ms) ! k) = Inr ((i # new) ! k)"
    using i n(3) by (auto simp: nth_Cons split: nat.splits)
  then show ?case using n(1,2) w h by (intro exI [of _ "i # new"]) simp
qed

lemma info_loop_returns:
  assumes "\<forall>m \<in> set ms. \<exists>i. OcrDetectorGetInfo p m = Inr i"
  shows "\<exists>r. info_loop p ms mw mh infos = Inr r"
  using assms
proof (induction ms arbitrary: mw mh infos)
  case Nil
  then show ?case by simp
next
  case (Cons m ms)
  then obtain i where "OcrDetectorGetInfo p m = Inr i" by auto
  then show ?case using Cons by simp
qed

text \<open>What the second loop leaves untouched in the preprocessor.\<close>

lemma ResizeImage_keeps:
  assumes "ResizeImage resample p img resize_w resize_h max_resize_w max_resize_h = Inr (p', img')"
  shows "pad_value (pad_op p') = pad_value (pad_op p)"
    and "disable_normalize p' = disable_normalize p"
    and "disable_permute p' = disable_permute p"
    and "normalize_permute_op p' = normalize_permute_op p"
    and "batch_det_img_info p' = batch_det_img_info p"
    and "pad_top (pad_op p') = 0" and "pad_left (pad_op p') = 0"
  using ResizeImage_result(8) [OF assms] by simp_all

lemma resize_loop_result:
  assumes "resize_loop resample p ms infos max_resize_w max_resize_h = Inr (p', ms')"
    and "length infos = length ms"
  shows "length ms' = length ms
       \<and> pad_value (pad_op p') = pad_value (pad_op p)
       \<and> disable_normalize p' = disable_normalize p
       \<and> disable_permute p' = disable_permute p
       \<and> normalize_permute_op p' = normalize_permute_op p
       \<and> batch_det_img_info p' = batch_det_img_info p
       \<and> (ms \<noteq> [] \<longrightarrow> pad_top (pad_op p') = 0 \<and> pad_left (pad_op p') = 0)
       \<and> (\<forall>k < length ms.
            0 < info_w (infos ! k) \<and> info_w (infos ! k) \<le> max_resize_w
          \<and> 0 < info_h (infos ! k) \<and> info_h (infos ! k) \<le> max_resize_h
          \<and> Width (ms' ! k) = max_resize_w \<and> Height (ms' ! k) = max_resize_h
          \<and> pixels (ms' ! k) =
              (\<lambda>x y. if 0 \<le> x \<and> x < info_w (infos ! k) \<and> 0 \<le> y \<and> y < info_h (infos ! k)
                     then resample (ms ! k) (info_w (infos ! k)) (info_h (infos ! k)) x y
                     else pad_value (pad_op p)))"
  using assms
proof (induction ms arbitrary: p infos p' ms')
  case Nil
  then show ?case by simp
next
  case (Cons m ms)
  from Cons.prems(2) obtain i rest where infos: "infos = i # rest" and len: "length rest = length ms"
    by (cases infos) auto
  from Cons.prems(1) obtain p1 m1 p2 ms2 where
    r1: "ResizeImage resample p m (info_w i) (info_h i) max_resize_w max_resize_h = Inr (p1, m1)"
    and r2: "resize_loop resample p1 ms rest max_resize_w max_resize_h = Inr (p2, ms2)"
    and out: "p' = p2" "ms' = m1 # ms2"
    unfolding infos by (auto simp: and_then_eq_Inr)
  note a = ResizeImage_result [OF r1]
  note b = ResizeImage_keeps [OF r1]
  note ih = Cons.IH [OF r2 len]
  have tail: "\<forall>k < length ms.
            0 < info_w (rest ! k) \<and> info_w (rest ! k) \<le> max_resize_w
          \<and> 0 < info_h (rest ! k) \<and> info_h (rest ! k) \<le> max_resize_h
          \<and> Width (ms2 ! k) = max_resize_w \<and> Height (ms2 ! k) = max_resize_h
          \<and> pixels (ms2 ! k) =
              (\<lambda>x y. if 0 \<le> x \<and> x < info_w (rest ! k) \<and> 0 \<le> y \<and> y < info_h (rest ! k)
                     then resample (ms ! k) (info_w (rest ! k)) (info_h (rest ! k)) x y
                     else pad_value (pad_op p))"
    using ih b(1) by (simp cong: if_cong)
  have top: "pad_top (pad_op p2) = 0 \<and> pad_left (pad_op p2) = 0"
  proof (cases "ms = []")
    case True
    then have "p2 = p1" using r2 by simp
    then show ?thesis using b(6,7) by simp
  next
    case False
    then show ?thesis using ih by simp
  qed
  have each: "\<forall>k < length (m # ms).
            0 < info_w ((i # rest) ! k) \<and> info_w ((i # rest) ! k) \<le> max_resize_w
          \<and> 0 < info_h ((i # rest) ! k) \<and> info_h ((i # rest) ! k) \<le> max_resize_h
          \<and> Width ((m1 # ms2) ! k) = max_resize_w \<and> Height ((m1 # ms2) ! k) = max_resize_h
          \<and> pixels ((m1 # ms2) ! k) =
              (\<lambda>x y. if 0 \<le> x \<and> x < info_w ((i # rest) ! k) \<and> 0 \<le> y \<and> y < info_h ((i # rest) ! k)
                     then resample ((m # ms) ! k) (info_w ((i # rest) ! k)) (info_h ((i # rest) ! k)) x y
                     else pad_value (pad_op p))"
  proof (intro allI impI)
    fix k assume "k < length (m # ms)"
    then show "0 < info_w ((i # rest) ! k) \<and> info_w ((i # rest) ! k) \<le> max_resize_w
          \<and> 0 < info_h ((i # rest) ! k) \<and> info_h ((i # rest) ! k) \<le> max_resize_h
          \<and> Width ((m1 # ms2) ! k) = max_resize_w \<and> Height ((m1 # ms2) ! k) = max_resize_h
          \<and> pixels ((m1 # ms2) ! k) =
              (\<lambda>x y. if 0 \<le> x \<and> x < info_w ((i # rest) ! k) \<and> 0 \<le> y \<and> y < info_h ((i # rest) ! k)
                     then resample ((m # ms) ! k) (info_w ((i # rest) ! k)) (info_h ((i # rest) ! k)) x y
                     else pad_value (pad_op p))"
      using a(1-7) tail by (cases k) (simp_all cong: if_cong)
  qed
  show ?case
    unfolding out infos using ih b(1-5) top each by (simp cong: if_cong)
qed


lemma resize_loop_returns:
  assumes "length infos = length ms"
    and "\<forall>i \<in> set infos. 0 < info_w i \<and> info_w i \<le> max_resize_w
                         \<and> 0 < info_h i \<and> info_h i \<le> max_resize_h"
    and "max_resize_w \<le> INT_MAX" "max_resize_h \<le> INT_MAX"
  shows "\<exists>r. resize_loop resample p ms infos max_resize_w max_resize_h = Inr r"
  using assms(1,2)
proof (induction ms arbitrary: p infos)
  case Nil
  then show ?case by simp
next
  case (Cons m ms)
  then obtain i rest where infos: "infos = i # rest" and len: "length rest = length ms"
    by (cases infos) auto
  have "\<exists>p' img'. ResizeImage resample p m (info_w i) (info_h i) max_resize_w max_resize_h
          = Inr (p', img')"
    using Cons.prems(2) assms(3,4) unfolding infos by (intro ResizeImage_returns) simp_all
  then obtain p1 m1 where
    r1: "ResizeImage resample p m (info_w i) (info_h i) max_resize_w max_resize_h = Inr (p1, m1)"
    by blast
  have "\<exists>r. resize_loop resample p1 ms rest max_resize_w max_resize_h = Inr r"
    using len Cons.prems(2) unfolding infos by (intro Cons.IH) simp_all
  then show ?case unfolding infos using r1 by auto
qed

lemma Apply_result:
  assumes "Apply resample p batch = Inr (p', batch', ok)"
  shows "\<exists>infos max_resize_w max_resize_h.
           length infos = length (mats batch)
         \<and> (\<forall>k < length (mats batch). OcrDetectorGetInfo p (mats batch ! k) = Inr (infos ! k))
         \<and> max_resize_w = Max (insert 0 (info_w ` set infos))
         \<and> max_resize_h = Max (insert 0 (info_h ` set infos))
         \<and> batch_det_img_info p' = infos \<and> ok
         \<and> length (mats batch') = length (mats batch)
         \<and> pad_value (pad_op p') = pad_value (pad_op p)
         \<and> (mats batch \<noteq> [] \<longrightarrow> pad_top (pad_op p') = 0 \<and> pad_left (pad_op p') = 0)
         \<and> layout batch' = (if \<not> disable_normalize p \<and> \<not> disable_permute p
                             then CHW else layout batch)
         \<and> normalized batch' = (if \<not> disable_normalize p \<and> \<not> disable_permute p
                                 then True else normalized batch)
         \<and> (\<forall>k < length (mats batch).
              0 < info_w (infos ! k) \<and> info_w (infos ! k) \<le> max_resize_w
            \<and> 0 < info_h (infos ! k) \<and> info_h (infos ! k) \<le> max_resize_h
            \<and> Width (mats batch' ! k) = max_resize_w \<and> Height (mats batch' ! k) = max_resize_h
            \<and> pixels (mats batch' ! k) =
                (\<lambda>x y. if 0 \<le> x \<and> x < info_w (infos ! k) \<and> 0 \<le> y \<and> y < info_h (infos ! k)
                       then resample (mats batch ! k) (info_w (infos ! k)) (info_h (infos ! k)) x y
                       else pad_value (pad_op p)))"
proof -
  from assms obtain MW MH infos p2 ms2 where
    l1: "info_loop p (mats batch) 0 0 [] = Inr (MW, MH, infos)"
    and l2: "resize_loop resample (p\<lparr>batch_det_img_info := infos\<rparr>) (mats batch) infos MW MH
               = Inr (p2, ms2)"
    and out: "p' = p2" "ok"
      "batch' = (if \<not> disable_normalize p2 \<and> \<not> disable_permute p2
                 then NormalizeAndPermute_apply (normalize_permute_op p2) (batch\<lparr>mats := ms2\<rparr>)
                 else batch\<lparr>mats := ms2\<rparr>)"
    by (auto simp: Apply_def and_then_eq_Inr Let_def split: prod.splits)
  from info_loop_result [OF l1] have n: "length infos = length (mats batch)"
    "\<forall>k < length (mats batch). OcrDetectorGetInfo p (mats batch ! k) = Inr (infos ! k)"
    "MW = Max (insert 0 (info_w ` set infos))" "MH = Max (insert 0 (info_h ` set infos))"
    by auto
  note r = resize_loop_result [OF l2 n(1)]
  have m: "mats batch' = ms2" "layout batch' = (if \<not> disable_normalize p \<and> \<not> disable_permute p
                             then CHW else layout batch)"
    "normalized batch' = (if \<not> disable_normalize p \<and> \<not> disable_permute p
                                 then True else normalized batch)"
    using r unfolding out(3) by (simp_all add: NormalizeAndPermute_apply_def)
  show ?thesis
    apply (rule exI [of _ infos], rule exI [of _ MW], rule exI [of _ MH])
    using n r m out(1,2) by (simp cong: if_cong)
qed

lemma Apply_returns:
  assumes "\<forall>m \<in> set (mats batch). \<exists>i. OcrDetectorGetInfo p m = Inr i
             \<and> 0 < info_w i \<and> info_w i \<le> INT_MAX \<and> 0 < info_h i \<and> info_h i \<le> INT_MAX"
  shows "\<exists>p' batch'. Apply resample p batch = Inr (p', batch', True)"
proof -
  have "\<exists>r. info_loop p (mats batch) 0 0 [] = Inr r"
    using assms by (intro info_loop_returns) blast
  then obtain MW MH infos where l1: "info_loop p (mats batch) 0 0 [] = Inr (MW, MH, infos)"
    by (metis prod_cases3)
  from info_loop_result [OF l1] have n: "length infos = length (mats batch)"
    "\<forall>k < length (mats batch). OcrDetectorGetInfo p (mats batch ! k) = Inr (infos ! k)"
    "MW = Max (insert 0 (info_w ` set infos))" "MH = Max (insert 0 (info_h ` set infos))"
    by auto
  have each: "0 < info_w i \<and> info_w i \<le> INT_MAX \<and> 0 < info_h i \<and> info_h i \<le> INT_MAX"
    if "i \<in> set infos" for i
  proof -
    from that obtain k where k: "k < length infos" "infos ! k = i" by (auto simp: in_set_conv_nth)
    then have "OcrDetectorGetInfo p (mats batch ! k) = Inr i" using n(1,2) by auto
    moreover have "mats batch ! k \<in> set (mats batch)" using k(1) n(1) by simp
    ultimately show ?thesis using assms by fastforce
  qed
  have le: "info_w i \<le> MW \<and> info_h i \<le> MH" if "i \<in> set infos" for i
    unfolding n(3,4) using that by (auto intro!: Max_ge)
  have "MW \<in> insert 0 (info_w ` set infos)" unfolding n(3) by (intro Max_in) auto
  then have mw: "MW \<le> INT_MAX" using each by (auto simp: INT_MAX_def)
  have "MH \<in> insert 0 (info_h ` set infos)" unfolding n(4) by (intro Max_in) auto
  then have mh: "MH \<le> INT_MAX" using each by (auto simp: INT_MAX_def)
  have "\<exists>r. resize_loop resample (p\<lparr>batch_det_img_info := infos\<rparr>) (mats batch) infos MW MH = Inr r"
    using n(1) each le mw mh by (intro resize_loop_returns) auto
  then obtain p2 ms2 where
    "resize_loop resample (p\<lparr>batch_det_img_info := infos\<rparr>) (mats batch) infos MW MH = Inr (p2, ms2)"
    by (metis surj_pair)
  then show ?thesis using l1 by (simp add: Apply_def Let_def)
qed

lemma Max_insert_0:
  fixes S :: "int set"
  assumes "finite S" "S \<noteq> {}" "\<forall>x \<in> S. 0 < x"
  shows "Max (insert 0 S) = Max S"
proof -
  have "Max S \<in> S" using assms(1,2) by (rule Max_in)
  then have "0 < Max S" using assms(3) by blast
  then show ?thesis using assms(1,2) by (simp add: max_def)
qed

section \<open>Float values at the inputs of the examples\<close>

lemma round_f32_48_5: "round_f32 (48 / 5) = Finite (5033165 / 524288)"
  by (subst round_f32_normal [where e = 3]) (simp_all add: round_even_def Let_def)

lemma round_f32_product_100: "round_f32 (125829125 / 131072) = Finite (15728641 / 16384)"
  by (subst round_f32_normal [where e = 9]) (simp_all add: round_even_def Let_def)

lemma round_f32_3_2: "round_f32 (3 / 2) = Finite (3 / 2)"
  by (subst round_f32_normal [where e = 0]) (simp_all add: round_even_def Let_def)

lemma round_f32_1: "round_f32 1 = Finite 1"
  by (subst round_f32_normal [where e = 0]) (simp_all add: round_even_def Let_def)

lemma round_f32_48_25: "round_f32 (48 / 25) = Finite (16106127 / 8388608)"
  by (subst round_f32_normal [where e = 0]) (simp_all add: round_even_def Let_def)

lemma round_f32_product_500: "round_f32 (2013265875 / 2097152) = Finite 960"
  by (subst round_f32_normal [where e = 9]) (simp_all add: round_even_def Let_def)

lemma round_f32_numeral:
  assumes "(numeral n :: int) \<le> 2 ^ 24"
  shows "round_f32 (numeral n) = Finite (numeral n)"
  using int_to_float_exact [of "numeral n"] assms by (simp add: int_to_float_def)

lemma round_f32_half: "round_f32 (1 / 2) = Finite (1 / 2)"
  by (subst round_f32_normal [where e = "- 1"]) (simp_all add: round_even_def Let_def)

lemma example_dynamic [simp]: "\<not> static_shape_infer example_preprocessor"
  by (simp add: example_preprocessor_def DBDetectorPreprocessor_ctor_def)

lemma round_f32_5_2: "round_f32 (5 / 2) = Finite (5 / 2)"
  by (subst round_f32_normal [where e = 1]) (simp_all add: round_even_def Let_def)

lemma example_members [simp]:
  "longside_size example_preprocessor = 960" "shortside_size example_preprocessor = 640"
  "\<not> disable_normalize example_preprocessor" "\<not> disable_permute example_preprocessor"
  "pad_value (pad_op example_preprocessor) = [Finite 0, Finite 0, Finite 0]"
  by (simp_all add: example_preprocessor_def DBDetectorPreprocessor_ctor_def)

lemma example_info_0:
  assumes "\<not> static_shape_infer p" "longside_size p = 960" "shortside_size p = 640"
  shows "OcrDetectorGetInfo p (black_image 2000 3000) = Inr (2000, 3000, 2016, 3008)"
  using assms
  by (simp add: OcrDetectorGetInfo_def black_image_def cal_dst_size_def orient_def
      align_pair_spec spec_align_def INT_MIN_def INT_MAX_def)

lemma example_info_1:
  assumes "\<not> static_shape_infer p" "longside_size p = 960" "shortside_size p = 640"
  shows "OcrDetectorGetInfo p (black_image 512 256) = Inr (512, 256, 1280, 640)"
  using assms
  by (simp add: OcrDetectorGetInfo_def black_image_def cal_dst_size_def orient_def
      int_to_float_exact round_f32_3_2 round_f32_5_2 round_f32_numeral
      align_pair_spec spec_align_def INT_MIN_def INT_MAX_def trunc_def)

lemma list_of_two:
  assumes "length xs = 2" "xs ! 0 = a" "xs ! 1 = b"
  shows "xs = [a, b]"
  using assms by (cases xs; cases "tl xs") auto

lemma example_apply:
  assumes "\<not> static_shape_infer p" "longside_size p = 960" "shortside_size p = 640"
  shows "\<exists>p' batch'. Apply resample p example_batch = Inr (p', batch', True)
           \<and> batch_det_img_info p' = [(2000, 3000, 2016, 3008), (512, 256, 1280, 640)]"
proof -
  note e0 = example_info_0 [OF assms]
  note e1 = example_info_1 [OF assms]
  have "\<forall>m \<in> set (mats example_batch). \<exists>i. OcrDetectorGetInfo p m = Inr i
             \<and> 0 < info_w i \<and> info_w i \<le> INT_MAX \<and> 0 < info_h i \<and> info_h i \<le> INT_MAX"
    using e0 e1 by (simp add: example_batch_def info_w_def info_h_def INT_MAX_def)
  then obtain p' batch' where
    a: "Apply resample p example_batch = Inr (p', batch', True)"
    using Apply_returns by blast
  from Apply_result [OF a] have l: "length (batch_det_img_info p') = length (mats example_batch)"
    and k: "\<forall>k < length (mats example_batch).
              OcrDetectorGetInfo p (mats example_batch ! k) = Inr (batch_det_img_info p' ! k)"
    by auto
  have "OcrDetectorGetInfo p (mats example_batch ! 0) = Inr (batch_det_img_info p' ! 0)"
    using k [rule_format, of 0] by (simp add: example_batch_def)
  then have "batch_det_img_info p' ! 0 = (2000, 3000, 2016, 3008)"
    using e0 by (simp add: example_batch_def)
  moreover have "OcrDetectorGetInfo p (mats example_batch ! 1) = Inr (batch_det_img_info p' ! 1)"
    using k [rule_format, of 1] by (simp add: example_batch_def)
  then have "batch_det_img_info p' ! 1 = (512, 256, 1280, 640)"
    using e1 by (simp add: example_batch_def)
  ultimately have "batch_det_img_info p' = [(2000, 3000, 2016, 3008), (512, 256, 1280, 640)]"
    using l by (intro list_of_two) (simp_all add: example_batch_def)
  then show ?thesis using a by blast
qed



section \<open>Every returned size is aligned\<close>

lemma rnd_mult32: "\<exists>j. rnd (rat_of_int k * 32) = rat_of_int (32 * j)"
proof (cases "k = 0")
  case True
  then show ?thesis by (simp add: rnd_0)
next
  case False
  define x where "x = rat_of_int k * 32"
  define e where "e = expo \<bar>x\<bar>"
  have "1 \<le> \<bar>k\<bar>" using False by simp
  then have "rat_of_int 1 \<le> rat_of_int \<bar>k\<bar>" by (simp only: of_int_le_iff)
  then have ax: "32 \<le> \<bar>x\<bar>" by (simp add: x_def abs_mult)
  then have x0: "0 < \<bar>x\<bar>" "x \<noteq> 0" by auto
  have "(2::rat) powi 5 \<le> \<bar>x\<bar>" using ax by simp
  then have e5: "5 \<le> e" unfolding e_def by (simp only: expo_ge_iff [OF x0(1)])
  define q :: rat where "q = 2 powi (e - 23)"
  have qx: "quantum x = q" using e5 by (simp add: quantum_def q_def e_def max_def)
  have r: "rnd x = rat_of_int (round_even (x / q)) * q" using x0(2) by (simp add: rnd_def qx)
  show ?thesis
  proof (cases "28 \<le> e")
    case True
    have "e - 23 = 5 + (e - 28)" by simp
    then have "q = 2 powi 5 * 2 powi (e - 28)" unfolding q_def by (simp only: pow2_join)
    also have "\<dots> = 32 * 2 ^ nat (e - 28)" using True by (simp add: power_int_nonneg_exp)
    finally have "rnd x = rat_of_int (32 * (round_even (x / q) * 2 ^ nat (e - 28)))"
      using r by simp
    then show ?thesis unfolding x_def by blast
  next
    case False
    then have d: "0 \<le> 28 - e" by simp
    have "(2::rat) powi 5 / q = 2 powi (5 - (e - 23))" unfolding q_def by (rule pow2_split [symmetric])
    also have "5 - (e - 23) = 28 - e" by simp
    also have "(2::rat) powi (28 - e) = 2 ^ nat (28 - e)" using d by (simp add: power_int_nonneg_exp)
    finally have "32 / q = (2::rat) ^ nat (28 - e)" by simp
    then have "rat_of_int k * (32 / q) = rat_of_int k * 2 ^ nat (28 - e)" by simp
    then have xq: "x / q = rat_of_int (k * 2 ^ nat (28 - e))" by (simp add: x_def)
    then have "round_even (x / q) = k * 2 ^ nat (28 - e)" by (simp only: round_even_of_int)
    then have "rat_of_int (round_even (x / q)) = x / q" using xq by simp
    moreover have "q \<noteq> 0" by (simp add: q_def)
    ultimately have "rnd x = x" using r by simp
    then have "rnd x = rat_of_int (32 * k)" by (simp add: x_def)
    then show ?thesis unfolding x_def by blast
  qed
qed

lemma round_f32_cases:
  "round_f32 x = Finite (rnd x) \<or> round_f32 x = PosInf \<or> round_f32 x = NegInf"
  by (simp add: round_f32_def Let_def)

lemma float_to_int_eq_Inr:
  "float_to_int f = Inr r \<longleftrightarrow> (\<exists>a. f = Finite a \<and> r = trunc a \<and> INT_MIN \<le> trunc a \<and> trunc a \<le> INT_MAX)"
  by (cases f) auto

lemma fmul_Finite_cases:
  "fmul (Finite a) (Finite b) = Finite (rnd (a * b)) \<or> fmul (Finite a) (Finite b) = PosInf
   \<or> fmul (Finite a) (Finite b) = NegInf"
  using round_f32_cases [of "a * b"] by simp

lemma int_to_float_32: "int_to_float 32 = Finite 32"
  using int_to_float_exact [of 32] by simp

lemma round_to_32_dvd:
  assumes "round_to_32 x = Inr r"
  shows "32 dvd r"
proof -
  define f where "f = fround (fdiv (int_to_float x) (Finite 32))"
  from assms obtain a where a: "fmul f (Finite 32) = Finite a" "r = trunc a"
    unfolding round_to_32_def int_to_float_32 f_def [symmetric] float_to_int_eq_Inr by blast
  have "\<exists>k. f = Finite (rat_of_int k)"
  proof (cases "fdiv (int_to_float x) (Finite 32)")
    case (Finite b)
    then show ?thesis by (simp add: f_def)
  next
    case PosInf
    then have "f = PosInf" by (simp add: f_def)
    then show ?thesis using a(1) by simp
  next
    case NegInf
    then have "f = NegInf" by (simp add: f_def)
    then show ?thesis using a(1) by simp
  next
    case NaN
    then have "f = NaN" by (simp add: f_def)
    then show ?thesis using a(1) by simp
  qed
  then obtain k where k: "f = Finite (rat_of_int k)" by blast
  have "a = rnd (rat_of_int k * 32)"
    using a(1) fmul_Finite_cases [of "rat_of_int k" 32] unfolding k by auto
  then obtain j where "a = rat_of_int (32 * j)" using rnd_mult32 [of k] by auto
  then have "r = 32 * j" using a(2) by (simp only: trunc_of_int)
  then show ?thesis by simp
qed

lemma align_up_dvd:
  assumes "align_up x base = Inr a"
  shows "base dvd a"
  using assms by (auto simp: align_up_def and_then_eq_Inr chk_int_eq_Inr)

lemma align_pair_aligned:
  assumes "align_pair a b base = Inr (h, w)"
  shows "base dvd h \<and> base \<le> h \<and> base dvd w \<and> base \<le> w"
proof -
  from assms obtain h' w' where "align_up a base = Inr h'" "align_up b base = Inr w'"
    "h = max h' base" "w = max w' base"
    by (auto simp: align_pair_def and_then_eq_Inr)
  then show ?thesis using align_up_dvd [of a base h'] align_up_dvd [of b base w']
    by (auto simp: max_def)
qed

lemma cal_dst_size_aligned:
  assumes "cal_dst_size src_height src_width long_min short_min base = Inr (dst_height, dst_width)"
  shows "base dvd dst_height \<and> base \<le> dst_height \<and> base dvd dst_width \<and> base \<le> dst_width"
proof -
  have "\<exists>a b. align_pair a b base = Inr (dst_height, dst_width)"
    using assms
    by (auto simp: cal_dst_size_def Let_def and_then_eq_Inr split: prod.splits if_splits)
  then show ?thesis using align_pair_aligned by blast
qed

lemma cal_dst_size_returns:
  assumes "0 < src_height" "src_height \<le> 2 ^ 15" "0 < src_width" "src_width \<le> 2 ^ 15"
    and "0 < long_min" "long_min \<le> 2 ^ 15" "0 < short_min" "short_min \<le> 2 ^ 15"
    and "0 < base" "base \<le> 2 ^ 15"
  shows "\<exists>x y. 0 < x \<and> x \<le> 2 ^ 30 \<and> 0 < y \<and> y \<le> 2 ^ 30
           \<and> cal_dst_size src_height src_width long_min short_min base
               = Inr (spec_align x base, spec_align y base)"
proof -
  obtain cur_long cur_short swap where
    o: "orient src_height src_width = (cur_long, cur_short, swap)"
    by (metis prod_cases3)
  have cl: "0 < cur_long" "cur_long \<le> 2 ^ 15" and cs: "0 < cur_short" "cur_short \<le> 2 ^ 15"
    using orient_cases [OF o] assms(1-4) by auto
  show ?thesis
  proof (cases "long_min < cur_long \<and> short_min < cur_short")
    case True
    have "align_pair src_height src_width base
            = Inr (spec_align src_height base, spec_align src_width base)"
      using assms(1-4,9,10) by (intro align_pair_spec) (simp_all add: INT_MIN_def INT_MAX_def)
    moreover have "cal_dst_size src_height src_width long_min short_min base
            = align_pair src_height src_width base"
      using True orient_cases [OF o] by (auto simp: cal_dst_size_def o Let_def)
    ultimately show ?thesis using assms(1-4)
      by (intro exI [of _ src_height] exI [of _ src_width]) simp
  next
    case False
    note nl = scaled_edge(3,4) [OF assms(7,8) cs cl, folded spec_scale_ceil_def]
    note ns = scaled_edge(3,4) [OF assms(5,6) cl cs, folded spec_scale_ceil_def]
    have t: "0 < long_min \<and> long_min \<le> 2 ^ 30" "0 < short_min \<and> short_min \<le> 2 ^ 30"
      using assms(5-8) by simp_all
    show ?thesis
      unfolding cal_dst_size_scaled [OF assms o False]
      using nl ns t by (auto intro: exI)
  qed
qed

lemma OcrDetectorGetInfo_returns:
  assumes "\<not> static_shape_infer p"
    and "0 < Width img" "Width img \<le> 2 ^ 15" "0 < Height img" "Height img \<le> 2 ^ 15"
    and "0 < longside_size p" "longside_size p \<le> 2 ^ 15"
    and "0 < shortside_size p" "shortside_size p \<le> 2 ^ 15"
  shows "\<exists>i. OcrDetectorGetInfo p img = Inr i
           \<and> 32 \<le> info_w i \<and> info_w i < 2 ^ 30 + 32 \<and> 32 \<le> info_h i \<and> info_h i < 2 ^ 30 + 32"
proof -
  have "\<exists>x y. 0 < x \<and> x \<le> 2 ^ 30 \<and> 0 < y \<and> y \<le> 2 ^ 30
           \<and> cal_dst_size (Height img) (Width img) (longside_size p) (shortside_size p) 32
               = Inr (spec_align x 32, spec_align y 32)"
    using assms(4,5,2,3,6-9) by (intro cal_dst_size_returns) simp_all
  then obtain x y where xy: "0 < x" "x \<le> 2 ^ 30" "0 < y" "y \<le> 2 ^ 30"
    "cal_dst_size (Height img) (Width img) (longside_size p) (shortside_size p) 32
       = Inr (spec_align x 32, spec_align y 32)"
    by blast
  have "32 \<le> spec_align x 32" "spec_align x 32 < x + 32"
    "32 \<le> spec_align y 32" "spec_align y 32 < y + 32"
    using spec_align_props [of 32 x] spec_align_props [of 32 y] xy(1,3) by simp_all
  then show ?thesis using assms(1) xy
    by (simp add: OcrDetectorGetInfo_def Let_def info_w_def info_h_def)
qed

lemma OcrDetectorGetInfo_aligned:
  assumes "\<not> static_shape_infer p" "OcrDetectorGetInfo p img = Inr i"
  shows "32 dvd info_w i \<and> 32 \<le> info_w i \<and> 32 dvd info_h i \<and> 32 \<le> info_h i"
proof -
  from assms obtain dh dw where
    "cal_dst_size (Height img) (Width img) (longside_size p) (shortside_size p) 32 = Inr (dh, dw)"
    "i = (Width img, Height img, dw, dh)"
    by (auto simp: OcrDetectorGetInfo_def Let_def and_then_eq_Inr)
  then show ?thesis using cal_dst_size_aligned [of "Height img" "Width img" _ _ 32 dh dw]
    by (simp add: info_w_def info_h_def)
qed

lemma OcrDetectorGetInfo_max_aligned:
  assumes "\<not> static_shape_infer p" "OcrDetectorGetInfo_max p img max_size_len = Inr i"
  shows "32 dvd info_w i \<and> 32 \<le> info_w i \<and> 32 dvd info_h i \<and> 32 \<le> info_h i"
proof -
  from assms obtain a b rh rw where
    "round_to_32 a = Inr rh" "round_to_32 b = Inr rw"
    "i = (Width img, Height img, max rw 32, max rh 32)"
    by (auto simp: OcrDetectorGetInfo_max_def Let_def and_then_eq_Inr)
  then show ?thesis using round_to_32_dvd [of a rh] round_to_32_dvd [of b rw]
    by (auto simp: info_w_def info_h_def max_def)
qed

lemma static_info_result:
  assumes "static_info p w h = Inr i"
  shows "info_w i = det_image_shape p ! 2 \<and> info_h i = det_image_shape p ! 1"
  using assms
  by (auto simp: static_info_def and_then_eq_Inr vec_at_def info_w_def info_h_def split: if_splits)

section \<open>Alignment of the targets\<close>

text \<open>
  Claim C1, as amended. In the two dynamic policies, the dual-threshold one in use and
  the single-threshold one, every target width and height that is returned is a multiple
  of 32 and at least 32; the dual-threshold policy returns for sizes and thresholds
  between 1 and 32768, the single-threshold policy for sizes between 1 and \<open>2\<^sup>2\<^sup>4\<close> and
  a threshold that is not negative. With a static shape both functions return the
  configured \<^verbatim>\<open>det_image_shape_\<close>, its entry 2 as the width and its entry 1 as the height,
  whatever these are.
\<close>

theorem targets_aligned_unless_static:
  "(\<not> static_shape_infer p \<longrightarrow>
      (\<forall>i. OcrDetectorGetInfo p img = Inr i \<longrightarrow>
           32 dvd info_w i \<and> 32 \<le> info_w i \<and> 32 dvd info_h i \<and> 32 \<le> info_h i)
    \<and> (\<forall>i. OcrDetectorGetInfo_max p img max_size_len = Inr i \<longrightarrow>
           32 dvd info_w i \<and> 32 \<le> info_w i \<and> 32 dvd info_h i \<and> 32 \<le> info_h i)
    \<and> (0 < Width img \<and> Width img \<le> 2 ^ 15 \<and> 0 < Height img \<and> Height img \<le> 2 ^ 15
       \<and> 0 < longside_size p \<and> longside_size p \<le> 2 ^ 15
       \<and> 0 < shortside_size p \<and> shortside_size p \<le> 2 ^ 15 \<longrightarrow>
         (\<exists>i. OcrDetectorGetInfo p img = Inr i))
    \<and> (0 < Width img \<and> Width img \<le> 2 ^ 24 \<and> 0 < Height img \<and> Height img \<le> 2 ^ 24
       \<and> 0 \<le> max_size_len \<longrightarrow>
         (\<exists>i. OcrDetectorGetInfo_max p img max_size_len = Inr i)))
 \<and> (static_shape_infer p \<longrightarrow>
      OcrDetectorGetInfo p img = static_info p (Width img) (Height img)
    \<and> OcrDetectorGetInfo_max p img max_size_len = static_info p (Width img) (Height img)
    \<and> (\<forall>i. static_info p (Width img) (Height img) = Inr i \<longrightarrow>
           info_w i = det_image_shape p ! 2 \<and> info_h i = det_image_shape p ! 1))"
proof (intro conjI impI allI)
  fix i assume "\<not> static_shape_infer p" "OcrDetectorGetInfo p img = Inr i"
  then have a: "32 dvd info_w i \<and> 32 \<le> info_w i \<and> 32 dvd info_h i \<and> 32 \<le> info_h i"
    by (rule OcrDetectorGetInfo_aligned)
  show "32 dvd info_w i" "32 \<le> info_w i" "32 dvd info_h i" "32 \<le> info_h i"
    using a by simp_all
next
  fix i assume "\<not> static_shape_infer p" "OcrDetectorGetInfo_max p img max_size_len = Inr i"
  then have a: "32 dvd info_w i \<and> 32 \<le> info_w i \<and> 32 dvd info_h i \<and> 32 \<le> info_h i"
    by (rule OcrDetectorGetInfo_max_aligned)
  show "32 dvd info_w i" "32 \<le> info_w i" "32 dvd info_h i" "32 \<le> info_h i"
    using a by simp_all
next
  assume "\<not> static_shape_infer p"
    and "0 < Width img \<and> Width img \<le> 2 ^ 15 \<and> 0 < Height img \<and> Height img \<le> 2 ^ 15
       \<and> 0 < longside_size p \<and> longside_size p \<le> 2 ^ 15
       \<and> 0 < shortside_size p \<and> shortside_size p \<le> 2 ^ 15"
  then show "\<exists>i. OcrDetectorGetInfo p img = Inr i"
    using OcrDetectorGetInfo_returns [of p img] by blast
next
  assume "\<not> static_shape_infer p"
    and "0 < Width img \<and> Width img \<le> 2 ^ 24 \<and> 0 < Height img \<and> Height img \<le> 2 ^ 24
       \<and> 0 \<le> max_size_len"
  then show "\<exists>i. OcrDetectorGetInfo_max p img max_size_len = Inr i"
    using OcrDetectorGetInfo_max_result [of p img max_size_len] by blast
next
  assume "static_shape_infer p"
  then show "OcrDetectorGetInfo p img = static_info p (Width img) (Height img)"
    by (simp add: OcrDetectorGetInfo_def)
next
  assume "static_shape_infer p"
  then show "OcrDetectorGetInfo_max p img max_size_len = static_info p (Width img) (Height img)"
    by (simp add: OcrDetectorGetInfo_max_def)
next
  fix i assume "static_info p (Width img) (Height img) = Inr i"
  then have a: "info_w i = det_image_shape p ! 2 \<and> info_h i = det_image_shape p ! 1"
    by (rule static_info_result)
  show "info_w i = det_image_shape p ! 2" "info_h i = det_image_shape p ! 1"
    using a by simp_all
qed

theorem targets_aligned_unless_static_witness:
  "(\<exists>i. OcrDetectorGetInfo example_preprocessor (black_image 2000 3000) = Inr i
       \<and> 32 dvd info_w i \<and> 32 \<le> info_w i \<and> 32 dvd info_h i \<and> 32 \<le> info_h i)
 \<and> (\<exists>i. OcrDetectorGetInfo_max example_preprocessor (black_image 2000 3000) 960 = Inr i
       \<and> 32 dvd info_w i \<and> 32 \<le> info_w i \<and> 32 dvd info_h i \<and> 32 \<le> info_h i)
 \<and> OcrDetectorGetInfo (example_preprocessor\<lparr>static_shape_infer := True\<rparr>)
       (black_image 2000 3000) = Inr (2000, 3000, 960, 960)"
proof -
  note d = targets_aligned_unless_static [of example_preprocessor "black_image 2000 3000" 960]
  note s = targets_aligned_unless_static
    [of "example_preprocessor\<lparr>static_shape_infer := True\<rparr>" "black_image 2000 3000" 960]
  have r: "0 < Width (black_image 2000 3000) \<and> Width (black_image 2000 3000) \<le> 2 ^ 15
     \<and> 0 < Height (black_image 2000 3000) \<and> Height (black_image 2000 3000) \<le> 2 ^ 15
     \<and> 0 < longside_size example_preprocessor \<and> longside_size example_preprocessor \<le> 2 ^ 15
     \<and> 0 < shortside_size example_preprocessor \<and> shortside_size example_preprocessor \<le> 2 ^ 15"
    "0 < Width (black_image 2000 3000) \<and> Width (black_image 2000 3000) \<le> 2 ^ 24
     \<and> 0 < Height (black_image 2000 3000) \<and> Height (black_image 2000 3000) \<le> 2 ^ 24
     \<and> (0::int) \<le> 960"
    by (simp_all add: black_image_def)
  have a: "\<exists>i. OcrDetectorGetInfo example_preprocessor (black_image 2000 3000) = Inr i
       \<and> 32 dvd info_w i \<and> 32 \<le> info_w i \<and> 32 dvd info_h i \<and> 32 \<le> info_h i"
    using d r(1) example_dynamic by blast
  have b: "\<exists>i. OcrDetectorGetInfo_max example_preprocessor (black_image 2000 3000) 960 = Inr i
       \<and> 32 dvd info_w i \<and> 32 \<le> info_w i \<and> 32 dvd info_h i \<and> 32 \<le> info_h i"
    using d r(2) example_dynamic by blast
  have "OcrDetectorGetInfo (example_preprocessor\<lparr>static_shape_infer := True\<rparr>)
       (black_image 2000 3000)
      = static_info (example_preprocessor\<lparr>static_shape_infer := True\<rparr>)
          (Width (black_image 2000 3000)) (Height (black_image 2000 3000))"
    using s by simp
  then have c: "OcrDetectorGetInfo (example_preprocessor\<lparr>static_shape_infer := True\<rparr>)
       (black_image 2000 3000) = Inr (2000, 3000, 960, 960)"
    by (simp add: static_info_def vec_at_def black_image_def example_preprocessor_def
        DBDetectorPreprocessor_ctor_def)
  show ?thesis using a b c by blast
qed

text \<open>
  Claim C1 as stated fails with a static shape: a configured shape of 100 by 100 is the
  target of a 640 by 480 image, and 100 is not a multiple of 32.
\<close>

theorem static_target_not_aligned:
  "OcrDetectorGetInfo
     (example_preprocessor\<lparr>static_shape_infer := True, det_image_shape := [3, 100, 100]\<rparr>)
     (black_image 640 480) = Inr (640, 480, 100, 100)
   \<and> \<not> 32 dvd info_w (640, 480, 100, 100) \<and> \<not> 32 dvd info_h (640, 480, 100, 100)"
  by (simp add: OcrDetectorGetInfo_def static_info_def vec_at_def black_image_def
      info_w_def info_h_def)

section \<open>The no-upscale branch of the dual-threshold policy\<close>

text \<open>
  Claim C2. In the dual-threshold policy, when the long edge of the image exceeds
  \<open>long_min\<close> and its short edge exceeds \<open>short_min\<close>, the original height and width
  are kept and each is rounded up to the next multiple of the alignment base: the result
  is the multiple of \<open>base\<close> in \<open>[x, x + base)\<close>, which is at least \<open>base\<close>. The
  sizes are positive and small enough for \<open>x + base\<close> to be an \<^verbatim>\<open>int\<close>. At height
  3000, width 2000, thresholds 960 and 640 and base 32 the result is 3008 by 2016.
\<close>

theorem no_upscale_keeps_dims:
  assumes "0 < base" "0 < src_height" "0 < src_width"
    and "src_height + base \<le> INT_MAX" "src_width + base \<le> INT_MAX"
    and "long_min < max src_height src_width" "short_min < min src_height src_width"
  shows "\<exists>dh dw. cal_dst_size src_height src_width long_min short_min base = Inr (dh, dw)
           \<and> dh = spec_align src_height base \<and> dw = spec_align src_width base
           \<and> base dvd dh \<and> src_height \<le> dh \<and> dh < src_height + base \<and> base \<le> dh
           \<and> base dvd dw \<and> src_width \<le> dw \<and> dw < src_width + base \<and> base \<le> dw"
proof -
  have r: "INT_MIN \<le> src_height" "INT_MIN \<le> src_width"
    using assms(2,3) by (simp_all add: INT_MIN_def)
  have p: "align_pair src_height src_width base
             = Inr (spec_align src_height base, spec_align src_width base)"
    using assms(1) r(1) assms(4) r(2) assms(5) by (rule align_pair_spec)
  have "cal_dst_size src_height src_width long_min short_min base
          = align_pair src_height src_width base"
    using assms(6,7) by (simp add: cal_dst_size_def orient_def Let_def max_def min_def split: if_splits)
  then show ?thesis
    using p spec_align_props [OF assms(1,2)] spec_align_props [OF assms(1,3)] by simp
qed

theorem no_upscale_keeps_dims_witness:
  "cal_dst_size 3000 2000 960 640 32 = Inr (3008, 2016)"
  using no_upscale_keeps_dims [of 32 3000 2000 960 640]
  by (simp add: INT_MAX_def spec_align_def)

section \<open>The two scaling branches of the dual-threshold policy\<close>



section \<open>The orientation of a square image\<close>

text \<open>
  Claim C4. In the dual-threshold policy a square image, of height and width \<open>n\<close>, is
  of the orientation where the width is at least the height: \<open>swap\<close> is true, so on
  every branch the height takes the short-edge result (\<open>short_min\<close> or the scaled short
  edge) and the width the long-edge result (the scaled long edge or \<open>long_min\<close>). At
  \<open>n = 500\<close> with the thresholds 960 and 640 the width is \<open>long_min\<close>, 960, and the
  height is the scaled short edge, 960.
\<close>

theorem square_is_width_class:
  "orient n n = (n, n, True)
   \<and> cal_dst_size n n long_min short_min base =
     (if long_min < n \<and> short_min < n then align_pair n n base
      else if fgt (fdiv (int_to_float n) (int_to_float n))
                  (fdiv (int_to_float long_min) (int_to_float short_min))
      then and_then (float_to_int (fceil
             (fmul (fdiv (int_to_float short_min) (int_to_float n)) (int_to_float n))))
             (\<lambda>new_long. align_pair short_min new_long base)
      else and_then (float_to_int (fceil
             (fmul (fdiv (int_to_float long_min) (int_to_float n)) (int_to_float n))))
             (\<lambda>new_short. align_pair new_short long_min base))"
  by (simp add: cal_dst_size_def orient_def Let_def)

theorem square_is_width_class_witness:
  "orient 500 500 = (500, 500, True) \<and> cal_dst_size 500 500 960 640 32 = Inr (960, 960)"
  using square_is_width_class [of 500 960 640 32]
  by (simp add: int_to_float_exact round_f32_48_25 round_f32_product_500 round_f32_3_2
      round_f32_1 align_pair_spec spec_align_def INT_MIN_def INT_MAX_def trunc_def)

section \<open>The single-threshold policy\<close>

text \<open>
  Claim C5. In the single-threshold policy (no static shape), with \<open>m\<close> the larger of
  the width and the height: if \<open>m\<close> exceeds \<open>max_size_len\<close>, both edges are scaled by
  the float ratio \<open>max_size_len / m\<close>, otherwise they are kept; each resulting edge
  \<open>s\<close> is then rounded to the nearest multiple of 32, at most 16 away from \<open>s\<close>, and
  floored at 32. The edges are positive and at most \<open>2\<^sup>2\<^sup>4\<close>, where an \<^verbatim>\<open>int\<close> converts to
  \<^verbatim>\<open>float\<close> without rounding, and the threshold is not negative; the function is shown
  to return there.
\<close>

theorem single_threshold_policy:
  assumes "\<not> static_shape_infer p"
    and "0 < Width img" "Width img \<le> 2 ^ 24" "0 < Height img" "Height img \<le> 2 ^ 24"
    and "0 \<le> max_size_len"
  shows "\<exists>sw sh.
          (if max_size_len < max (Width img) (Height img)
           then fmul (int_to_float (Width img))
                  (fdiv (int_to_float max_size_len)
                        (int_to_float (max (Width img) (Height img)))) = Finite sw
              \<and> fmul (int_to_float (Height img))
                  (fdiv (int_to_float max_size_len)
                        (int_to_float (max (Width img) (Height img)))) = Finite sh
           else sw = rat_of_int (Width img) \<and> sh = rat_of_int (Height img))
        \<and> OcrDetectorGetInfo_max p img max_size_len
            = Inr (Width img, Height img, spec_nearest32 sw, spec_nearest32 sh)
        \<and> \<bar>rat_of_int (32 * round_half_away (sw / 32)) - sw\<bar> \<le> 16
        \<and> \<bar>rat_of_int (32 * round_half_away (sh / 32)) - sh\<bar> \<le> 16"
  using OcrDetectorGetInfo_max_result [OF assms] .

theorem single_threshold_policy_witness:
  "OcrDetectorGetInfo_max example_preprocessor (black_image 2048 1024) 1024
     = Inr (2048, 1024, 1024, 512)"
  using single_threshold_policy [of example_preprocessor "black_image 2048 1024" 1024]
  by (auto simp: black_image_def int_to_float_exact round_f32_half round_f32_numeral
      spec_nearest32_def round_half_away_def)

section \<open>Every image of a batch is padded to the batch maximum\<close>

text \<open>
  Claim C6. For a batch that is not empty, when \<^verbatim>\<open>Apply\<close> returns: the preprocessor
  holds the target of every image, in batch order; the batch maximum of the target widths
  and that of the target heights are at least the target of every image; and every image
  of the batch has the maximum width and the maximum height as its final size. With a
  dynamic shape, thresholds between 1 and 32768 and images whose sizes are between 1 and
  32768, \<^verbatim>\<open>Apply\<close> returns, with the result true.
\<close>

theorem batch_padded_to_maximum:
  assumes "mats batch \<noteq> []"
  shows "(\<forall>p' batch' ok. Apply resample p batch = Inr (p', batch', ok) \<longrightarrow>
           length (batch_det_img_info p') = length (mats batch)
         \<and> (\<forall>k < length (mats batch).
               OcrDetectorGetInfo p (mats batch ! k) = Inr (batch_det_img_info p' ! k))
         \<and> (\<forall>i \<in> set (batch_det_img_info p').
               info_w i \<le> Max (info_w ` set (batch_det_img_info p'))
             \<and> info_h i \<le> Max (info_h ` set (batch_det_img_info p')))
         \<and> length (mats batch') = length (mats batch)
         \<and> (\<forall>m \<in> set (mats batch').
               Width m = Max (info_w ` set (batch_det_img_info p'))
             \<and> Height m = Max (info_h ` set (batch_det_img_info p'))))
       \<and> (\<not> static_shape_infer p
          \<and> 0 < longside_size p \<and> longside_size p \<le> 2 ^ 15
          \<and> 0 < shortside_size p \<and> shortside_size p \<le> 2 ^ 15
          \<and> (\<forall>m \<in> set (mats batch). 0 < Width m \<and> Width m \<le> 2 ^ 15
                                     \<and> 0 < Height m \<and> Height m \<le> 2 ^ 15) \<longrightarrow>
           (\<exists>p' batch'. Apply resample p batch = Inr (p', batch', True)))"
proof -
  have part1: "length (batch_det_img_info p') = length (mats batch)
         \<and> (\<forall>k < length (mats batch).
               OcrDetectorGetInfo p (mats batch ! k) = Inr (batch_det_img_info p' ! k))
         \<and> (\<forall>i \<in> set (batch_det_img_info p').
               info_w i \<le> Max (info_w ` set (batch_det_img_info p'))
             \<and> info_h i \<le> Max (info_h ` set (batch_det_img_info p')))
         \<and> length (mats batch') = length (mats batch)
         \<and> (\<forall>m \<in> set (mats batch').
               Width m = Max (info_w ` set (batch_det_img_info p'))
             \<and> Height m = Max (info_h ` set (batch_det_img_info p')))"
    if a: "Apply resample p batch = Inr (p', batch', ok)" for p' batch' ok
  proof -
    define infos where "infos = batch_det_img_info p'"
    from Apply_result [OF a] have r:
      "length infos = length (mats batch)"
      "\<forall>k < length (mats batch). OcrDetectorGetInfo p (mats batch ! k) = Inr (infos ! k)"
      "length (mats batch') = length (mats batch)"
      "\<forall>k < length (mats batch).
          0 < info_w (infos ! k) \<and> 0 < info_h (infos ! k)
        \<and> Width (mats batch' ! k) = Max (insert 0 (info_w ` set infos))
        \<and> Height (mats batch' ! k) = Max (insert 0 (info_h ` set infos))"
      unfolding infos_def by auto
    have ne: "infos \<noteq> []" using r(1) assms by auto
    have pos: "\<forall>i \<in> set infos. 0 < info_w i \<and> 0 < info_h i"
    proof
      fix i assume "i \<in> set infos"
      then obtain k where "k < length infos" "infos ! k = i" by (auto simp: in_set_conv_nth)
      then show "0 < info_w i \<and> 0 < info_h i" using r(1,4) by metis
    qed
    have mw: "Max (insert 0 (info_w ` set infos)) = Max (info_w ` set infos)"
      using ne pos by (intro Max_insert_0) auto
    have mh: "Max (insert 0 (info_h ` set infos)) = Max (info_h ` set infos)"
      using ne pos by (intro Max_insert_0) auto
    have le: "\<forall>i \<in> set infos. info_w i \<le> Max (info_w ` set infos)
                            \<and> info_h i \<le> Max (info_h ` set infos)"
      by (auto intro!: Max_ge)
    have dims: "\<forall>m \<in> set (mats batch').
               Width m = Max (info_w ` set infos) \<and> Height m = Max (info_h ` set infos)"
    proof
      fix m assume "m \<in> set (mats batch')"
      then obtain k where "k < length (mats batch')" "mats batch' ! k = m"
        by (auto simp: in_set_conv_nth)
      then show "Width m = Max (info_w ` set infos) \<and> Height m = Max (info_h ` set infos)"
        using r(3,4) mw mh by metis
    qed
    show ?thesis using r(1,2,3) le dims unfolding infos_def by simp
  qed
  have part2: "\<exists>p' batch'. Apply resample p batch = Inr (p', batch', True)"
    if h: "\<not> static_shape_infer p
          \<and> 0 < longside_size p \<and> longside_size p \<le> 2 ^ 15
          \<and> 0 < shortside_size p \<and> shortside_size p \<le> 2 ^ 15
          \<and> (\<forall>m \<in> set (mats batch). 0 < Width m \<and> Width m \<le> 2 ^ 15
                                     \<and> 0 < Height m \<and> Height m \<le> 2 ^ 15)"
  proof -
    have "\<exists>i. OcrDetectorGetInfo p m = Inr i
               \<and> 0 < info_w i \<and> info_w i \<le> INT_MAX \<and> 0 < info_h i \<and> info_h i \<le> INT_MAX"
      if "m \<in> set (mats batch)" for m
    proof -
      have "\<exists>i. OcrDetectorGetInfo p m = Inr i
             \<and> 32 \<le> info_w i \<and> info_w i < 2 ^ 30 + 32 \<and> 32 \<le> info_h i \<and> info_h i < 2 ^ 30 + 32"
        using h that by (intro OcrDetectorGetInfo_returns) auto
      then show ?thesis by (auto simp: INT_MAX_def)
    qed
    then show ?thesis by (intro Apply_returns) blast
  qed
  show ?thesis using part1 part2 by blast
qed

theorem batch_padded_to_maximum_witness:
  "\<exists>p' batch'. Apply corner_resample example_preprocessor example_batch = Inr (p', batch', True)
      \<and> batch_det_img_info p' = [(2000, 3000, 2016, 3008), (512, 256, 1280, 640)]
      \<and> (\<forall>m \<in> set (mats batch'). Width m = 2016 \<and> Height m = 3008)"
proof -
  have ne: "mats example_batch \<noteq> []" by (simp add: example_batch_def)
  note t = batch_padded_to_maximum [OF ne, of corner_resample example_preprocessor]
  have "\<exists>p' batch'. Apply corner_resample example_preprocessor example_batch
          = Inr (p', batch', True)"
    using t by (simp add: example_batch_def black_image_def)
  then obtain p' batch' where
    a: "Apply corner_resample example_preprocessor example_batch = Inr (p', batch', True)"
    by blast
  from t a have t1: "length (batch_det_img_info p') = length (mats example_batch)
         \<and> (\<forall>k < length (mats example_batch).
               OcrDetectorGetInfo example_preprocessor (mats example_batch ! k)
                 = Inr (batch_det_img_info p' ! k))
         \<and> (\<forall>m \<in> set (mats batch').
               Width m = Max (info_w ` set (batch_det_img_info p'))
             \<and> Height m = Max (info_h ` set (batch_det_img_info p')))"
    by blast
  have l: "length (batch_det_img_info p') = 2" using t1 by (simp add: example_batch_def)
  have k: "\<forall>k < length (mats example_batch).
              OcrDetectorGetInfo example_preprocessor (mats example_batch ! k)
                = Inr (batch_det_img_info p' ! k)"
    using t1 by simp
  have "OcrDetectorGetInfo example_preprocessor (mats example_batch ! 0)
          = Inr (batch_det_img_info p' ! 0)"
    using k [rule_format, of 0] by (simp add: example_batch_def)
  then have "batch_det_img_info p' ! 0 = (2000, 3000, 2016, 3008)"
    using example_info_0 [of example_preprocessor] by (simp add: example_batch_def)
  moreover have "OcrDetectorGetInfo example_preprocessor (mats example_batch ! 1)
          = Inr (batch_det_img_info p' ! 1)"
    using k [rule_format, of 1] by (simp add: example_batch_def)
  then have "batch_det_img_info p' ! 1 = (512, 256, 1280, 640)"
    using example_info_1 [of example_preprocessor] by (simp add: example_batch_def)
  ultimately have i: "batch_det_img_info p' = [(2000, 3000, 2016, 3008), (512, 256, 1280, 640)]"
    using l by (intro list_of_two) simp_all
  have "\<forall>m \<in> set (mats batch'). Width m = 2016 \<and> Height m = 3008"
    using t1 by (simp add: i info_w_def info_h_def)
  then show ?thesis using a i by blast
qed

section \<open>Padding extends an image at the bottom and at the right only\<close>

text \<open>
  Claim C7. The constructor sets the fill value of the padding to 0 in each of three
  channels. Every call of \<^verbatim>\<open>ResizeImage\<close> that returns has set the padding to 0 at the
  top and at the left, to \<open>max_resize_h - resize_h\<close> at the bottom and to
  \<open>max_resize_w - resize_w\<close> at the right, neither of them negative. For every image \<open>k\<close>
  of a batch that \<^verbatim>\<open>Apply\<close> has processed with that fill value, the two amounts are the
  batch maximum minus the target of the image and are not negative, the final size is
  the target plus the amounts, the pixels inside the target are those of the resized
  image at the same position, so its top-left origin is kept, and every other pixel is 0
  in each channel.
\<close>

theorem padding_bottom_and_right_only:
  "pad_value (pad_op (DBDetectorPreprocessor_ctor p0)) = [Finite 0, Finite 0, Finite 0]
 \<and> (\<forall>q img resize_w resize_h max_resize_w max_resize_h q' img'.
      ResizeImage resample q img resize_w resize_h max_resize_w max_resize_h = Inr (q', img') \<longrightarrow>
        pad_op q' = (pad_op q)\<lparr>pad_top := 0, pad_bottom := max_resize_h - resize_h,
                               pad_left := 0, pad_right := max_resize_w - resize_w\<rparr>
      \<and> 0 \<le> max_resize_h - resize_h \<and> 0 \<le> max_resize_w - resize_w)
 \<and> (\<forall>p' batch' ok k.
      pad_value (pad_op p) = [Finite 0, Finite 0, Finite 0]
      \<and> Apply resample p batch = Inr (p', batch', ok) \<and> k < length (mats batch) \<longrightarrow>
        (let tw = info_w (batch_det_img_info p' ! k);
             th = info_h (batch_det_img_info p' ! k);
             mw = Max (info_w ` set (batch_det_img_info p'));
             mh = Max (info_h ` set (batch_det_img_info p'))
         in 0 \<le> mw - tw \<and> 0 \<le> mh - th
          \<and> Width (mats batch' ! k) = tw + (mw - tw)
          \<and> Height (mats batch' ! k) = th + (mh - th)
          \<and> (\<forall>x y. pixels (mats batch' ! k) x y =
                (if 0 \<le> x \<and> x < tw \<and> 0 \<le> y \<and> y < th
                 then resample (mats batch ! k) tw th x y
                 else [Finite 0, Finite 0, Finite 0]))
          \<and> pad_top (pad_op p') = 0 \<and> pad_left (pad_op p') = 0
          \<and> pad_value (pad_op p') = [Finite 0, Finite 0, Finite 0]))"
proof -
  have c: "pad_value (pad_op (DBDetectorPreprocessor_ctor p0)) = [Finite 0, Finite 0, Finite 0]"
    by (simp add: DBDetectorPreprocessor_ctor_def)
  have r: "pad_op q' = (pad_op q)\<lparr>pad_top := 0, pad_bottom := max_resize_h - resize_h,
                               pad_left := 0, pad_right := max_resize_w - resize_w\<rparr>
      \<and> 0 \<le> max_resize_h - resize_h \<and> 0 \<le> max_resize_w - resize_w"
    if "ResizeImage resample q img resize_w resize_h max_resize_w max_resize_h = Inr (q', img')"
    for q img resize_w resize_h max_resize_w max_resize_h q' img'
    using ResizeImage_result(3,4,8) [OF that] by simp
  have a: "(let tw = info_w (batch_det_img_info p' ! k);
             th = info_h (batch_det_img_info p' ! k);
             mw = Max (info_w ` set (batch_det_img_info p'));
             mh = Max (info_h ` set (batch_det_img_info p'))
         in 0 \<le> mw - tw \<and> 0 \<le> mh - th
          \<and> Width (mats batch' ! k) = tw + (mw - tw)
          \<and> Height (mats batch' ! k) = th + (mh - th)
          \<and> (\<forall>x y. pixels (mats batch' ! k) x y =
                (if 0 \<le> x \<and> x < tw \<and> 0 \<le> y \<and> y < th
                 then resample (mats batch ! k) tw th x y
                 else [Finite 0, Finite 0, Finite 0]))
          \<and> pad_top (pad_op p') = 0 \<and> pad_left (pad_op p') = 0
          \<and> pad_value (pad_op p') = [Finite 0, Finite 0, Finite 0])"
    if h: "pad_value (pad_op p) = [Finite 0, Finite 0, Finite 0]
      \<and> Apply resample p batch = Inr (p', batch', ok) \<and> k < length (mats batch)"
    for p' batch' ok k
  proof -
    define infos where "infos = batch_det_img_info p'"
    have ap: "Apply resample p batch = Inr (p', batch', ok)" and kl: "k < length (mats batch)"
      and pv: "pad_value (pad_op p) = [Finite 0, Finite 0, Finite 0]"
      using h by simp_all
    from Apply_result [OF ap] have r:
      "length infos = length (mats batch)"
      "pad_value (pad_op p') = pad_value (pad_op p)"
      "mats batch \<noteq> [] \<longrightarrow> pad_top (pad_op p') = 0 \<and> pad_left (pad_op p') = 0"
      "\<forall>k < length (mats batch).
          0 < info_w (infos ! k) \<and> info_w (infos ! k) \<le> Max (insert 0 (info_w ` set infos))
        \<and> 0 < info_h (infos ! k) \<and> info_h (infos ! k) \<le> Max (insert 0 (info_h ` set infos))
        \<and> Width (mats batch' ! k) = Max (insert 0 (info_w ` set infos))
        \<and> Height (mats batch' ! k) = Max (insert 0 (info_h ` set infos))
        \<and> pixels (mats batch' ! k) =
            (\<lambda>x y. if 0 \<le> x \<and> x < info_w (infos ! k) \<and> 0 \<le> y \<and> y < info_h (infos ! k)
                   then resample (mats batch ! k) (info_w (infos ! k)) (info_h (infos ! k)) x y
                   else pad_value (pad_op p))"
      unfolding infos_def by auto
    have ne: "infos \<noteq> []" "mats batch \<noteq> []" using r(1) kl by auto
    have pos: "\<forall>i \<in> set infos. 0 < info_w i \<and> 0 < info_h i"
    proof
      fix i assume "i \<in> set infos"
      then obtain j where "j < length infos" "infos ! j = i" by (auto simp: in_set_conv_nth)
      then show "0 < info_w i \<and> 0 < info_h i" using r(1,4) by metis
    qed
    have mw: "Max (insert 0 (info_w ` set infos)) = Max (info_w ` set infos)"
      using ne pos by (intro Max_insert_0) auto
    have mh: "Max (insert 0 (info_h ` set infos)) = Max (info_h ` set infos)"
      using ne pos by (intro Max_insert_0) auto
    note rk = r(4) [rule_format, OF kl, unfolded mw mh]
    show ?thesis
      unfolding Let_def infos_def [symmetric]
      using rk r(2,3) ne(2) pv by (simp cong: if_cong)
  qed
  show ?thesis using c r a by blast
qed

theorem padding_bottom_and_right_only_witness:
  "pad_value (pad_op example_preprocessor) = [Finite 0, Finite 0, Finite 0]
 \<and> (\<exists>q' img'. ResizeImage corner_resample example_preprocessor (black_image 512 256)
                 1280 640 2016 3008 = Inr (q', img')
      \<and> pad_top (pad_op q') = 0 \<and> pad_bottom (pad_op q') = 2368
      \<and> pad_left (pad_op q') = 0 \<and> pad_right (pad_op q') = 736)
 \<and> (\<exists>p' batch'. Apply corner_resample example_preprocessor example_batch = Inr (p', batch', True)
      \<and> Width (mats batch' ! 1) = 1280 + (2016 - 1280)
      \<and> Height (mats batch' ! 1) = 640 + (3008 - 640)
      \<and> pixels (mats batch' ! 1) 1279 639 = corner_resample (black_image 512 256) 1280 640 1279 639
      \<and> pixels (mats batch' ! 1) 1280 639 = [Finite 0, Finite 0, Finite 0]
      \<and> pixels (mats batch' ! 1) 1279 640 = [Finite 0, Finite 0, Finite 0]
      \<and> pad_top (pad_op p') = 0 \<and> pad_left (pad_op p') = 0)"
proof -
  note t = padding_bottom_and_right_only
    [of "example_preprocessor" corner_resample example_preprocessor example_batch]
  have c: "pad_value (pad_op example_preprocessor) = [Finite 0, Finite 0, Finite 0]"
    by simp
  obtain q' img' where r: "ResizeImage corner_resample example_preprocessor (black_image 512 256)
                 1280 640 2016 3008 = Inr (q', img')"
    using ResizeImage_returns [of 1280 640 2016 3008 corner_resample example_preprocessor
        "black_image 512 256"]
    by (auto simp: INT_MAX_def)
  note t2 = t [THEN conjunct2, THEN conjunct1, rule_format, OF r]
  have b: "\<exists>q' img'. ResizeImage corner_resample example_preprocessor (black_image 512 256)
                 1280 640 2016 3008 = Inr (q', img')
      \<and> pad_top (pad_op q') = 0 \<and> pad_bottom (pad_op q') = 2368
      \<and> pad_left (pad_op q') = 0 \<and> pad_right (pad_op q') = 736"
    using r t2 by (intro exI [of _ q'] exI [of _ img']) simp
  obtain p' batch' where
    a: "Apply corner_resample example_preprocessor example_batch = Inr (p', batch', True)"
    and i: "batch_det_img_info p' = [(2000, 3000, 2016, 3008), (512, 256, 1280, 640)]"
    using example_apply [of example_preprocessor corner_resample] by auto
  have h: "pad_value (pad_op example_preprocessor) = [Finite 0, Finite 0, Finite 0]
      \<and> Apply corner_resample example_preprocessor example_batch = Inr (p', batch', True)
      \<and> (1::nat) < length (mats example_batch)"
    using a by (simp add: example_batch_def)
  note t3 = t [THEN conjunct2, THEN conjunct2, rule_format, OF h]
  have "Width (mats batch' ! 1) = 1280 + (2016 - 1280)
      \<and> Height (mats batch' ! 1) = 640 + (3008 - 640)
      \<and> pixels (mats batch' ! 1) 1279 639 = corner_resample (black_image 512 256) 1280 640 1279 639
      \<and> pixels (mats batch' ! 1) 1280 639 = [Finite 0, Finite 0, Finite 0]
      \<and> pixels (mats batch' ! 1) 1279 640 = [Finite 0, Finite 0, Finite 0]
      \<and> pad_top (pad_op p') = 0 \<and> pad_left (pad_op p') = 0"
    using t3 by (simp add: i info_w_def info_h_def Let_def example_batch_def)
  then show ?thesis using a b c by blast
qed

section \<open>No validation of the inputs\<close>

text \<open>
  Claim C8, as amended. The code validates nothing and knows no configuration error:
  whenever \<^verbatim>\<open>Apply\<close> returns, it returns true. For a height, a width and thresholds
  between 1 and 32768 every float of \<^verbatim>\<open>cal_dst_size\<close> is finite, the two ratios that
  are compared as well as the scaling ratio and the scaled edge of either branch, and
  the function returns a height and a width that are \<^verbatim>\<open>int\<close> values of at least 32. A
  target size is an \<^verbatim>\<open>int\<close>, so it is never a NaN or an infinity.
\<close>

theorem no_validation_finite_when_well_formed:
  "(\<forall>p' batch' ok. Apply resample p batch = Inr (p', batch', ok) \<longrightarrow> ok)
 \<and> (0 < src_height \<and> src_height \<le> 2 ^ 15 \<and> 0 < src_width \<and> src_width \<le> 2 ^ 15
    \<and> 0 < long_min \<and> long_min \<le> 2 ^ 15 \<and> 0 < short_min \<and> short_min \<le> 2 ^ 15
    \<and> orient src_height src_width = (cur_long, cur_short, swap) \<longrightarrow>
      (\<exists>base_ratio cur_ratio ratio1 product1 ratio2 product2 dst_height dst_width.
          fdiv (int_to_float long_min) (int_to_float short_min) = Finite base_ratio
        \<and> fdiv (int_to_float cur_long) (int_to_float cur_short) = Finite cur_ratio
        \<and> fdiv (int_to_float short_min) (int_to_float cur_short) = Finite ratio1
        \<and> fmul (Finite ratio1) (int_to_float cur_long) = Finite product1
        \<and> fdiv (int_to_float long_min) (int_to_float cur_long) = Finite ratio2
        \<and> fmul (Finite ratio2) (int_to_float cur_short) = Finite product2
        \<and> cal_dst_size src_height src_width long_min short_min 32 = Inr (dst_height, dst_width)
        \<and> 32 \<le> dst_height \<and> dst_height \<le> INT_MAX \<and> 32 \<le> dst_width \<and> dst_width \<le> INT_MAX))"
proof -
  have ok: "ok" if "Apply resample p batch = Inr (p', batch', ok)" for p' batch' ok
    using Apply_result [OF that] by auto
  have fin: "\<exists>base_ratio cur_ratio ratio1 product1 ratio2 product2 dst_height dst_width.
          fdiv (int_to_float long_min) (int_to_float short_min) = Finite base_ratio
        \<and> fdiv (int_to_float cur_long) (int_to_float cur_short) = Finite cur_ratio
        \<and> fdiv (int_to_float short_min) (int_to_float cur_short) = Finite ratio1
        \<and> fmul (Finite ratio1) (int_to_float cur_long) = Finite product1
        \<and> fdiv (int_to_float long_min) (int_to_float cur_long) = Finite ratio2
        \<and> fmul (Finite ratio2) (int_to_float cur_short) = Finite product2
        \<and> cal_dst_size src_height src_width long_min short_min 32 = Inr (dst_height, dst_width)
        \<and> 32 \<le> dst_height \<and> dst_height \<le> INT_MAX \<and> 32 \<le> dst_width \<and> dst_width \<le> INT_MAX"
    if h: "0 < src_height \<and> src_height \<le> 2 ^ 15 \<and> 0 < src_width \<and> src_width \<le> 2 ^ 15
    \<and> 0 < long_min \<and> long_min \<le> 2 ^ 15 \<and> 0 < short_min \<and> short_min \<le> 2 ^ 15
    \<and> orient src_height src_width = (cur_long, cur_short, swap)"
  proof -
    have o: "orient src_height src_width = (cur_long, cur_short, swap)" using h by simp
    have sh: "0 < src_height" "src_height \<le> 2 ^ 15" and sw: "0 < src_width" "src_width \<le> 2 ^ 15"
      and lm: "0 < long_min" "long_min \<le> 2 ^ 15" and sm: "0 < short_min" "short_min \<le> 2 ^ 15"
      using h by simp_all
    have cl: "0 < cur_long" "cur_long \<le> 2 ^ 15" and cs: "0 < cur_short" "cur_short \<le> 2 ^ 15"
      using orient_cases [OF o] sh sw by auto
    note br = fdiv_ints(1) [OF lm sm]
    note cr = fdiv_ints(1) [OF cl cs]
    note r1 = fdiv_ints(1) [OF sm cs]
    note r2 = fdiv_ints(1) [OF lm cl]
    note p1 = scaled_edge(1) [OF sm cs cl, unfolded r1]
    note p2 = scaled_edge(1) [OF lm cl cs, unfolded r2]
    have "\<exists>x y. 0 < x \<and> x \<le> 2 ^ 30 \<and> 0 < y \<and> y \<le> 2 ^ 30
           \<and> cal_dst_size src_height src_width long_min short_min 32
               = Inr (spec_align x 32, spec_align y 32)"
      using sh sw lm sm by (intro cal_dst_size_returns) simp_all
    then obtain x y where xy: "0 < x" "x \<le> 2 ^ 30" "0 < y" "y \<le> 2 ^ 30"
      "cal_dst_size src_height src_width long_min short_min 32
         = Inr (spec_align x 32, spec_align y 32)"
      by blast
    have b: "32 \<le> spec_align x 32" "spec_align x 32 \<le> INT_MAX"
      "32 \<le> spec_align y 32" "spec_align y 32 \<le> INT_MAX"
      using spec_align_props [of 32 x] spec_align_props [of 32 y] xy(1-4)
      by (simp_all add: INT_MAX_def)
    show ?thesis using br cr r1 r2 p1 p2 xy(5) b by blast
  qed
  show ?thesis using ok fin by blast
qed

theorem no_validation_finite_when_well_formed_witness:
  "(\<exists>p' batch' ok. Apply corner_resample example_preprocessor example_batch = Inr (p', batch', ok)
      \<and> ok)
 \<and> (\<exists>dst_height dst_width.
      cal_dst_size 512 256 1024 512 32 = Inr (dst_height, dst_width)
    \<and> 32 \<le> dst_height \<and> dst_height \<le> INT_MAX \<and> 32 \<le> dst_width \<and> dst_width \<le> INT_MAX)"
proof -
  note t = no_validation_finite_when_well_formed
    [of corner_resample example_preprocessor example_batch 512 256 1024 512 512 256 False]
  obtain p' batch' where
    a: "Apply corner_resample example_preprocessor example_batch = Inr (p', batch', True)"
    using example_apply [of example_preprocessor corner_resample] by auto
  have "\<exists>dst_height dst_width.
      cal_dst_size 512 256 1024 512 32 = Inr (dst_height, dst_width)
    \<and> 32 \<le> dst_height \<and> dst_height \<le> INT_MAX \<and> 32 \<le> dst_width \<and> dst_width \<le> INT_MAX"
    using t by (simp add: orient_def) blast
  then show ?thesis using a t by blast
qed

text \<open>
  Claim C8 as stated fails for a threshold of 0: with \<open>short_min = 0\<close> the base ratio is
  \<open>960 / 0\<close>, an infinity, and a 2000 by 3000 image is given the size 2016 by 3008 with
  no error.
\<close>

theorem misconfigured_threshold_accepted:
  "cal_dst_size 3000 2000 960 0 32 = Inr (3008, 2016)
   \<and> fdiv (int_to_float 960) (int_to_float 0) = PosInf"
  by (simp add: cal_dst_size_def orient_def int_to_float_exact int_to_float_0
      align_pair_spec spec_align_def INT_MIN_def INT_MAX_def)

section \<open>Normalisation and permutation are one step\<close>

text \<open>
  Claim C9, as amended. After every image is resized and padded, \<^verbatim>\<open>Apply\<close> runs the
  single batched step that normalises and permutes the layout when neither
  \<^verbatim>\<open>disable_normalize_\<close> nor \<^verbatim>\<open>disable_permute_\<close> is set: the batch is then normalised
  and planar. When either flag is set the step is skipped as a whole, and both the
  layout and the pixel values of the batch stay as they were.
\<close>

theorem normalize_and_permute_together:
  assumes "Apply resample p batch = Inr (p', batch', ok)"
  shows "(\<not> disable_normalize p \<and> \<not> disable_permute p \<longrightarrow>
            layout batch' = CHW \<and> normalized batch')
       \<and> (disable_normalize p \<or> disable_permute p \<longrightarrow>
            layout batch' = layout batch \<and> normalized batch' = normalized batch)"
  using Apply_result [OF assms] by auto

theorem normalize_and_permute_together_witness:
  "(\<exists>p' batch'. Apply corner_resample example_preprocessor example_batch = Inr (p', batch', True)
      \<and> layout batch' = CHW \<and> normalized batch')
 \<and> (\<exists>p' batch'. Apply corner_resample (example_preprocessor\<lparr>disable_permute := True\<rparr>)
                     example_batch = Inr (p', batch', True)
      \<and> layout batch' = HWC \<and> \<not> normalized batch')"
proof -
  obtain p' batch' where
    a: "Apply corner_resample example_preprocessor example_batch = Inr (p', batch', True)"
    using example_apply [of example_preprocessor corner_resample] by auto
  obtain q' batch'' where
    b: "Apply corner_resample (example_preprocessor\<lparr>disable_permute := True\<rparr>) example_batch
          = Inr (q', batch'', True)"
    using example_apply [of "example_preprocessor\<lparr>disable_permute := True\<rparr>" corner_resample]
    by auto
  have "layout batch' = CHW \<and> normalized batch'"
    using normalize_and_permute_together [OF a] by simp
  moreover have "layout batch'' = HWC \<and> \<not> normalized batch''"
    using normalize_and_permute_together [OF b] by (simp add: example_batch_def)
  ultimately show ?thesis using a b by blast
qed

text \<open>
  Claim C9 as stated fails when only the normalisation is disabled: the layout is not
  permuted either, it stays interleaved.
\<close>

theorem disabling_normalize_skips_permute:
  "layout_after (Apply corner_resample (example_preprocessor\<lparr>disable_normalize := True\<rparr>)
                   example_batch) = Inr (HWC, False)"
proof -
  obtain p' batch' where
    a: "Apply corner_resample (example_preprocessor\<lparr>disable_normalize := True\<rparr>) example_batch
          = Inr (p', batch', True)"
    using example_apply [of "example_preprocessor\<lparr>disable_normalize := True\<rparr>" corner_resample]
    by auto
  have "layout batch' = HWC" "normalized batch' = False"
    using Apply_result [OF a] by (auto simp: example_batch_def)
  then show ?thesis by (simp add: a layout_after_def)
qed

section \<open>Orientation of the result\<close>

text \<open>
  Claim C10 says that the long edge of the input stays the long or equal edge of the
  result. The code does not keep it for a square image of 100 by 100 with the thresholds
  960 and 640: the float ratio \<open>960 / 100\<close> is above 9.6, the float product with 100 is
  above 960, its ceiling is 961, and the height, which takes the short-edge result,
  becomes 992 while the width is 960.
\<close>

theorem square_100_taller_than_wide:
  "cal_dst_size 100 100 960 640 32 = Inr (992, 960) \<and> (960 :: int) < 992"
  by (simp add: cal_dst_size_def orient_def int_to_float_exact round_f32_48_5
      round_f32_product_100 round_f32_3_2 round_f32_1
      align_pair_spec spec_align_def INT_MIN_def INT_MAX_def trunc_def)

end
